theory Spec2Isabelle
  imports Main "HOL-Library.Word" "HOL-Library.Multiset"
begin

unbundle bit_operations_syntax

section \<open>Bounded loops and local arrays\<close>

text \<open>
  A \<^verbatim>\<open>std::array<T, LEN>\<close> is a list whose length is \<open>LEN\<close>; a template length
  parameter is read off the list.  The counting loop
  \<^verbatim>\<open>for(idx = i; idx < n; ++idx) body\<close> is \<open>for_upto i n body\<close>: the state that
  the body changes is passed through.  The counters of the library are \<^verbatim>\<open>int\<close> or
  \<^verbatim>\<open>std::size_t\<close>; every array of the library lives on the stack of a test
  program, far below \<open>2^31\<close> elements, so that a counter is a natural number here.
\<close>

function for_upto :: "nat \<Rightarrow> nat \<Rightarrow> (nat \<Rightarrow> 's \<Rightarrow> 's) \<Rightarrow> 's \<Rightarrow> 's" where
  "for_upto i n body s = (if i < n then for_upto (Suc i) n body (body i s) else s)"
  by pat_completeness auto
termination
  by (relation "measure (\<lambda>(i, n, body, s). n - i)") auto

declare for_upto.simps [simp del]

text \<open>
  The loops that count down, \<^verbatim>\<open>for(i = hi; i >= lo; --i) body\<close>, have a signed
  counter (it ends below \<open>lo\<close>); \<^verbatim>\<open>for(col = W - 1; col > 0; --col)\<close> is
  \<open>for_downto (W - 1) 1\<close>.
\<close>

function for_downto :: "int \<Rightarrow> int \<Rightarrow> (int \<Rightarrow> 's \<Rightarrow> 's) \<Rightarrow> 's \<Rightarrow> 's" where
  "for_downto i lo body s = (if lo \<le> i then for_downto (i - 1) lo body (body i s) else s)"
  by pat_completeness auto
termination
  by (relation "measure (\<lambda>(i, lo, body, s). nat (i + 1 - lo))") auto

declare for_downto.simps [simp del]

text \<open>\<^verbatim>\<open>for(int i = lo; i < n; ++i) body\<close> with a signed counter.\<close>

function for_from :: "int \<Rightarrow> int \<Rightarrow> (int \<Rightarrow> 's \<Rightarrow> 's) \<Rightarrow> 's \<Rightarrow> 's" where
  "for_from i n body s = (if i < n then for_from (i + 1) n body (body i s) else s)"
  by pat_completeness auto
termination
  by (relation "measure (\<lambda>(i, n, body, s). nat (n - i))") auto

declare for_from.simps [simp del]

text \<open>
  A local array declared without an initialiser (\<^verbatim>\<open>std::array<T, LEN> res;\<close>) holds
  no value in any cell until the cell is assigned: a cell is \<open>None\<close> until then.
  Returning the array by value reads every cell.
\<close>

definition uninit :: "nat \<Rightarrow> 'a option list" where
  "uninit n = replicate n None"

definition contents :: "'a option list \<Rightarrow> 'a list" where
  "contents res = map the res"

section \<open>functools.hpp\<close>

text \<open>\<^verbatim>\<open>partial(A, B)(ARGS...)\<close> is \<^verbatim>\<open>A(B, ARGS...)\<close>.\<close>

definition partial :: "('b \<Rightarrow> 'c) \<Rightarrow> 'b \<Rightarrow> 'c" where
  "partial A B = A B"

definition flip :: "('b \<Rightarrow> 'a \<Rightarrow> 'c) \<Rightarrow> 'a \<Rightarrow> 'b \<Rightarrow> 'c" where
  "flip F L R = F R L"

definition uncurry :: "('a \<Rightarrow> 'b \<Rightarrow> 'c) \<Rightarrow> 'a \<times> 'b \<Rightarrow> 'c" where
  "uncurry F P = F (fst P) (snd P)"

section \<open>arrayops.hpp\<close>

text \<open>\<^verbatim>\<open>res[0] = V; for(idx = 0; idx < LEN; ++idx) res[idx+1] = IN[idx];\<close>\<close>

definition prepend :: "'a \<Rightarrow> 'a list \<Rightarrow> 'a list" where
  "prepend V IN =
     (let LEN = length IN;
          res = uninit (LEN + 1);
          res = res[0 := Some V];
          res = for_upto 0 LEN (\<lambda>idx res. res[idx + 1 := Some (IN ! idx)]) res
      in contents res)"

text \<open>\<^verbatim>\<open>for(idx = 0; idx < LEN; ++idx) res[idx] = IN[idx]; res[LEN] = V;\<close>\<close>

definition append_hops :: "'a list \<Rightarrow> 'a \<Rightarrow> 'a list" where
  "append_hops IN V =
     (let LEN = length IN;
          res = uninit (LEN + 1);
          res = for_upto 0 LEN (\<lambda>idx res. res[idx := Some (IN ! idx)]) res;
          res = res[LEN := Some V]
      in contents res)"

text \<open>
  The second loop of \<open>concatenate\<close> and of \<open>split\<close> runs two counters,
  \<^verbatim>\<open>for(int ridx = LLEN, idx = 0; idx < RLEN; ++ridx, ++idx)\<close>; \<open>ridx\<close> is part of
  the loop state.
\<close>

definition concatenate :: "'a list \<Rightarrow> 'a list \<Rightarrow> 'a list" where
  "concatenate L R =
     (let LLEN = length L; RLEN = length R;
          res = uninit (LLEN + RLEN);
          res = for_upto 0 LLEN (\<lambda>idx res. res[idx := Some (L ! idx)]) res;
          (ridx, res) = for_upto 0 RLEN
             (\<lambda>idx (ridx, res). (Suc ridx, res[ridx := Some (R ! idx)])) (LLEN, res)
      in contents res)"

definition split :: "nat \<Rightarrow> 'a list \<Rightarrow> 'a list \<times> 'a list" where
  "split IDX IN =
     (let LEN = length IN;
          llen = (if IDX > LEN then LEN else IDX);
          rlen = (if IDX > LEN then 0 else LEN - IDX);
          l = for_upto 0 llen (\<lambda>idx l. l[idx := Some (IN ! idx)]) (uninit llen);
          (ridx, r) = for_upto 0 rlen
             (\<lambda>idx (ridx, r). (Suc ridx, r[idx := Some (IN ! ridx)])) (llen, uninit rlen)
      in (contents l, contents r))"

definition head :: "'a list \<Rightarrow> 'a" where
  "head t = t ! 0"

text \<open>
  \<open>tail\<close> returns a \<^verbatim>\<open>std::array<T, LEN-1>\<close>, so it is instantiated for
  \<open>LEN \<ge> 1\<close> only; the recursive helpers below call it in their \<open>Suc\<close> case only.
\<close>

definition tail :: "'a list \<Rightarrow> 'a list" where
  "tail IN =
     (let LEN = length IN;
          res = uninit (LEN - 1);
          res = for_upto 0 (LEN - 1) (\<lambda>idx res. res[idx := Some (IN ! (idx + 1))]) res
      in contents res)"

text \<open>
  \<open>rrotate\<close> splits at \<^verbatim>\<open>LEN-1\<close>, a \<^verbatim>\<open>std::size_t\<close> expression: for the empty
  array it wraps around to \<open>2^64 - 1\<close>.
\<close>

definition size_t_pred :: "nat \<Rightarrow> nat" where
  "size_t_pred LEN = (if LEN = 0 then 2 ^ 64 - 1 else LEN - 1)"

definition rrotate :: "'a list \<Rightarrow> 'a list" where
  "rrotate IN = uncurry (flip concatenate) (split (size_t_pred (length IN)) IN)"

definition lrotate :: "'a list \<Rightarrow> 'a list" where
  "lrotate IN = uncurry (flip concatenate) (split 1 IN)"

definition rshift :: "'a \<Rightarrow> 'a list \<Rightarrow> 'a list" where
  "rshift V IN = prepend V (fst (split (size_t_pred (length IN)) IN))"

text \<open>
  The compile-time logarithms.  \<^verbatim>\<open>log2(n)\<close> is 1 for every \<open>n \<le> 2\<close>;
  \<^verbatim>\<open>clog2(n)\<close> adds 1 when \<^verbatim>\<open>n > (1 << log2(n))\<close>.
\<close>

function log2 :: "nat \<Rightarrow> nat" where
  "log2 n = (if n \<le> 2 then 1 else 1 + log2 (n div 2))"
  by pat_completeness auto
termination
  by (relation "measure id") auto

declare log2.simps [simp del]

definition clog2 :: "nat \<Rightarrow> nat" where
  "clog2 n = log2 n + (if n > 2 ^ log2 n then 1 else 0)"

section \<open>map.hpp\<close>

text \<open>
  \<open>MapHelper<LEN>\<close> recurses on the template parameter; \<open>MapHelper<0>\<close> returns
  an empty local array.
\<close>

fun MapHelper :: "nat \<Rightarrow> ('a \<Rightarrow> 'b) \<Rightarrow> 'a list \<Rightarrow> 'b list" where
  "MapHelper 0 F IN = contents (uninit 0)"
| "MapHelper (Suc LEN) F IN = prepend (F (IN ! 0)) (MapHelper LEN F (tail IN))"

definition map_hops :: "('a \<Rightarrow> 'b) \<Rightarrow> 'a list \<Rightarrow> 'b list" where
  "map_hops F IN = MapHelper (length IN) F IN"

text \<open>\<^verbatim>\<open>for(i = 0; i < LEN; ++i) temp[i] = F(IN[i]);\<close>\<close>

definition map_loop :: "('a \<Rightarrow> 'b) \<Rightarrow> 'a list \<Rightarrow> 'b list" where
  "map_loop F IN =
     (let LEN = length IN;
          temp = uninit LEN;
          temp = for_upto 0 LEN (\<lambda>i temp. temp[i := Some (F (IN ! i))]) temp
      in contents temp)"

section \<open>reduce.hpp\<close>

fun ReduceHelper_lreduce :: "nat \<Rightarrow> ('b \<Rightarrow> 'a \<Rightarrow> 'b) \<Rightarrow> 'b \<Rightarrow> 'a list \<Rightarrow> 'b" where
  "ReduceHelper_lreduce 0 F INIT IN = INIT"
| "ReduceHelper_lreduce (Suc LEN) F INIT IN =
     ReduceHelper_lreduce LEN F (F INIT (head IN)) (tail IN)"

fun ReduceHelper_rreduce :: "nat \<Rightarrow> ('a \<Rightarrow> 'b \<Rightarrow> 'b) \<Rightarrow> 'a list \<Rightarrow> 'b \<Rightarrow> 'b" where
  "ReduceHelper_rreduce 0 F IN INIT = INIT"
| "ReduceHelper_rreduce (Suc LEN) F IN INIT =
     F (head IN) (ReduceHelper_rreduce LEN F (tail IN) INIT)"

definition lreduce :: "('b \<Rightarrow> 'a \<Rightarrow> 'b) \<Rightarrow> 'b \<Rightarrow> 'a list \<Rightarrow> 'b" where
  "lreduce F INIT IN = ReduceHelper_lreduce (length IN) F INIT IN"

definition rreduce :: "('a \<Rightarrow> 'b \<Rightarrow> 'b) \<Rightarrow> 'a list \<Rightarrow> 'b \<Rightarrow> 'b" where
  "rreduce F IN INIT = ReduceHelper_rreduce (length IN) F IN INIT"

section \<open>zip.hpp\<close>

fun XipHelper_zip :: "nat \<Rightarrow> 'a list \<Rightarrow> 'b list \<Rightarrow> ('a \<times> 'b) list" where
  "XipHelper_zip 0 L R = contents (uninit 0)"
| "XipHelper_zip (Suc LEN) L R =
     prepend (L ! 0, R ! 0) (XipHelper_zip LEN (tail L) (tail R))"

fun XipHelper_unzip :: "nat \<Rightarrow> ('a \<times> 'b) list \<Rightarrow> 'a list \<times> 'b list" where
  "XipHelper_unzip 0 IN = (contents (uninit 0), contents (uninit 0))"
| "XipHelper_unzip (Suc LEN) IN =
     (let t = XipHelper_unzip LEN (tail IN)
      in (prepend (fst (IN ! 0)) (fst t), prepend (snd (IN ! 0)) (snd t)))"

fun XipHelper_zipWith :: "nat \<Rightarrow> ('a \<Rightarrow> 'b \<Rightarrow> 'c) \<Rightarrow> 'a list \<Rightarrow> 'b list \<Rightarrow> 'c list" where
  "XipHelper_zipWith 0 F A B = contents (uninit 0)"
| "XipHelper_zipWith (Suc LEN) F A B =
     prepend (F (A ! 0) (B ! 0)) (XipHelper_zipWith LEN F (tail A) (tail B))"

fun XipHelper_zipWith3 ::
  "nat \<Rightarrow> ('a \<Rightarrow> 'b \<Rightarrow> 'c \<Rightarrow> 'd) \<Rightarrow> 'a list \<Rightarrow> 'b list \<Rightarrow> 'c list \<Rightarrow> 'd list" where
  "XipHelper_zipWith3 0 F A B C = contents (uninit 0)"
| "XipHelper_zipWith3 (Suc LEN) F A B C =
     prepend (F (A ! 0) (B ! 0) (C ! 0))
       (XipHelper_zipWith3 LEN F (tail A) (tail B) (tail C))"

definition zipWith :: "('a \<Rightarrow> 'b \<Rightarrow> 'c) \<Rightarrow> 'a list \<Rightarrow> 'b list \<Rightarrow> 'c list" where
  "zipWith F A B = XipHelper_zipWith (length A) F A B"

definition zipWith3 ::
  "('a \<Rightarrow> 'b \<Rightarrow> 'c \<Rightarrow> 'd) \<Rightarrow> 'a list \<Rightarrow> 'b list \<Rightarrow> 'c list \<Rightarrow> 'd list" where
  "zipWith3 F A B C = XipHelper_zipWith3 (length A) F A B C"

text \<open>Both arguments of \<open>zip\<close> have the one template length \<open>LEN\<close>.\<close>

definition zip_hops :: "'a list \<Rightarrow> 'b list \<Rightarrow> ('a \<times> 'b) list" where
  "zip_hops L R = XipHelper_zip (length L) L R"

definition unzip :: "('a \<times> 'b) list \<Rightarrow> 'a list \<times> 'b list" where
  "unzip IN = XipHelper_unzip (length IN) IN"

section \<open>utility.hpp\<close>

text \<open>
  \<open>check\<close> takes both arrays by reference; its loop only reads them.  The model
  returns the two arrays as the call leaves them, next to the returned \<^verbatim>\<open>int\<close>.
  The counter \<open>i\<close> is an \<^verbatim>\<open>int\<close> and the result \<^verbatim>\<open>-(i + 1)\<close> is computed
  from it: at \<open>i = 2^31 - 1\<close> both \<^verbatim>\<open>i + 1\<close> and \<^verbatim>\<open>++i\<close> overflow, which is
  undefined behaviour (\<open>None\<close>).
\<close>

function check_loop :: "'a list \<Rightarrow> 'a list \<Rightarrow> nat \<Rightarrow> int option \<times> 'a list \<times> 'a list" where
  "check_loop TGT GOLD i =
     (if i < length TGT then
        if 2 ^ 31 \<le> i + 1 then (None, TGT, GOLD)
        else if TGT ! i \<noteq> GOLD ! i then (Some (- (int i + 1)), TGT, GOLD)
        else check_loop TGT GOLD (i + 1)
      else (Some 0, TGT, GOLD))"
  by pat_completeness auto
termination
  by (relation "measure (\<lambda>(TGT, GOLD, i). length TGT - i)") auto

declare check_loop.simps [simp del]

definition check :: "'a list \<Rightarrow> 'a list \<Rightarrow> int option \<times> 'a list \<times> 'a list" where
  "check TGT GOLD = check_loop TGT GOLD 0"

section \<open>arrayops.hpp: range\<close>

text \<open>
  \<^verbatim>\<open>std::array<std::size_t, (STOP-START)/STEP> temp;\<close>
  \<^verbatim>\<open>for(std::size_t v = START, idx = 0; v < STOP; v += STEP, ++idx) temp[idx] = v;\<close>
  The array has no bounds check; a write at an index that is not below the length of
  \<open>temp\<close> is undefined behaviour, and the model stops there with the index
  (\<open>Inl idx\<close>).  \<open>v\<close> is a 64-bit \<^verbatim>\<open>std::size_t\<close>.  \<open>STEP = 0\<close> and
  \<open>STOP < START\<close> do not compile (the length of the array is then a division by zero,
  or wraps around to an array too large to declare).
\<close>

datatype range_error = IllFormed | OutOfBounds nat

function range_loop :: "nat \<Rightarrow> nat \<Rightarrow> nat \<Rightarrow> nat \<Rightarrow> nat option list \<Rightarrow> nat + nat option list" where
  "range_loop STOP STEP v idx temp =
     (if v < STOP then
        if idx < length temp
        then range_loop STOP STEP ((v + STEP) mod 2 ^ 64) (Suc idx) (temp[idx := Some v])
        else Inl idx
      else Inr temp)"
  by pat_completeness auto
termination
  by (relation "measure (\<lambda>(STOP, STEP, v, idx, temp). length temp - idx)") auto

declare range_loop.simps [simp del]

definition range_hops :: "nat \<Rightarrow> nat \<Rightarrow> nat \<Rightarrow> range_error + nat list" where
  "range_hops STOP START STEP =
     (if STEP = 0 \<or> STOP < START then Inl IllFormed
      else case range_loop STOP STEP START 0 (uninit ((STOP - START) div STEP)) of
             Inl idx \<Rightarrow> Inl (OutOfBounds idx)
           | Inr temp \<Rightarrow> Inr (contents temp))"

section \<open>smith_waterman/systolic.hpp\<close>

text \<open>
  \<open>systolic\<close> folds \<open>wrapper\<close> over the rows from row 0 on: \<open>wrapper\<close> puts the
  history of the current row in front of the histories of the rows done so far and
  hands this window to \<open>F\<close>.  \<open>sloop::systolic\<close> hands \<open>F\<close> the row index and the
  whole matrix.  \<open>W\<close> is the template parameter of the history length, at
  least 1.
\<close>

record ('f, 's, 't) triple =
  trip_left :: 'f
  trip_top :: 's
  trip_hist :: 't

definition triplizer :: "'f \<Rightarrow> 's \<Rightarrow> 't \<Rightarrow> ('f, 's, 't) triple" where
  "triplizer f s t = \<lparr>trip_left = f, trip_top = s, trip_hist = t\<rparr>"

definition wrapper ::
  "('l \<Rightarrow> 't \<Rightarrow> 's list list \<Rightarrow> 's) \<Rightarrow> 's list \<times> 's list list \<Rightarrow> ('l, 't, 's list) triple
    \<Rightarrow> 's list \<times> 's list list" where
  "wrapper F past cur =
     (let smatrix = prepend (trip_hist cur) (snd past);
          result = F (trip_left cur) (trip_top cur) smatrix
      in (append_hops (fst past) result, smatrix))"

definition systolic ::
  "('l \<Rightarrow> 't \<Rightarrow> 's list list \<Rightarrow> 's) \<Rightarrow> 'l list \<Rightarrow> 't list \<Rightarrow> 's list list \<Rightarrow> 's list list" where
  "systolic F left top' smatrix =
     (let init = (contents (uninit 0), contents (uninit 0));
          trips = zipWith3 triplizer left top' smatrix;
          newcol = fst (lreduce (partial wrapper F) init trips);
          newsmatrix = zipWith rshift newcol smatrix
      in newsmatrix)"

definition sloop_systolic ::
  "nat \<Rightarrow> (nat \<Rightarrow> 'l \<Rightarrow> 't \<Rightarrow> 's list list \<Rightarrow> 's) \<Rightarrow> 'l list \<Rightarrow> 't list \<Rightarrow> 's list list
    \<Rightarrow> 's list list" where
  "sloop_systolic W F left top' smatrix =
     (let H = length smatrix;
          newcol = uninit H;
          newsmatrix = replicate H (uninit W);
          newcol = for_upto 0 H
            (\<lambda>row newcol. newcol[row := Some (F row (left ! row) (top' ! row) smatrix)]) newcol;
          newsmatrix = for_upto 0 H
            (\<lambda>row newsmatrix.
               let r = for_downto (int W - 1) 1
                         (\<lambda>col r. r[nat col := Some (smatrix ! row ! (nat col - 1))])
                         (newsmatrix ! row);
                   r = r[0 := newcol ! row]
               in newsmatrix[row := r]) newsmatrix
      in map contents newsmatrix)"

section \<open>smith_waterman/test.cpp: the cell update\<close>

text \<open>
  \<^verbatim>\<open>struct score { char v, e, f; }\<close> and \<^verbatim>\<open>struct sw_ref { hw_base b; bool last; }\<close>;
  without \<^verbatim>\<open>BIT_ACCURATE\<close>, \<^verbatim>\<open>hw_base\<close> is \<^verbatim>\<open>char\<close>.  A \<^verbatim>\<open>char\<close> is a signed
  8-bit value (as on the x86 targets of the examples).  The operands of \<^verbatim>\<open>-\<close> and
  \<^verbatim>\<open>+\<close> are promoted to \<^verbatim>\<open>int\<close>; storing the \<^verbatim>\<open>int\<close> into a \<^verbatim>\<open>char\<close> field, and
  the cast \<^verbatim>\<open>(char)\<close>, keep the low 8 bits (\<open>char_of_int\<close>).  \<^verbatim>\<open>std::max\<close> on two
  \<^verbatim>\<open>char\<close>s is \<open>max_char\<close>.  The fields of the two records carry the name of the
  record in front.
\<close>

type_synonym char8 = "8 word"

definition char_of_int :: "int \<Rightarrow> char8" where
  "char_of_int x = word_of_int x"

definition max_char :: "char8 \<Rightarrow> char8 \<Rightarrow> char8" where
  "max_char a b = (if sint a < sint b then b else a)"

definition MATCH :: int where "MATCH = 2"
definition ALPHA :: int where "ALPHA = 2"
definition BETA :: int where "BETA = 1"
definition READ_LENGTH :: nat where "READ_LENGTH = 16"
definition SW_HIST :: nat where "SW_HIST = 2"

record score =
  score_v :: char8
  score_e :: char8
  score_f :: char8

record sw_ref =
  ref_b :: char8
  ref_last :: bool

text \<open>
  The operator of the fold-based form.  Its template parameter \<open>IDX\<close> is the number
  of rows of the window it receives; the overload for a window of one row returns
  zeros.
\<close>

definition sw_op_rec :: "char8 \<Rightarrow> sw_ref \<Rightarrow> score list list \<Rightarrow> score" where
  "sw_op_rec read ref smatrix =
     (let IDX = length smatrix in
      if IDX = 1 then \<lparr>score_v = 0, score_e = 0, score_f = 0\<rparr>
      else if ref_last ref then
        \<lparr>score_v = char_of_int (- int IDX), score_e = char_of_int (- int IDX),
         score_f = char_of_int (- int IDX)\<rparr>
      else
        let sigma = char_of_int (if read = ref_b ref then MATCH else - MATCH);
            ret_e = char_of_int (max (sint (score_v (smatrix ! 0 ! 0)) - ALPHA)
                                     (sint (score_e (smatrix ! 0 ! 0)) - BETA));
            ret_f = char_of_int (max (sint (score_v (smatrix ! 1 ! 0)) - ALPHA)
                                     (sint (score_f (smatrix ! 1 ! 0)) - BETA));
            ret_v = max_char (char_of_int (sint (score_v (smatrix ! 1 ! 1)) + sint sigma))
                             (max_char ret_e ret_f)
        in \<lparr>score_v = ret_v, score_e = ret_e, score_f = ret_f\<rparr>)"

text \<open>The operator of the loop form; \<open>IDX\<close> is the row index.\<close>

definition sw_op_loop :: "nat \<Rightarrow> char8 \<Rightarrow> sw_ref \<Rightarrow> score list list \<Rightarrow> score" where
  "sw_op_loop IDX read ref smatrix =
     (if IDX = 0 then \<lparr>score_v = 0, score_e = 0, score_f = 0\<rparr>
      else if ref_last ref then
        \<lparr>score_v = char_of_int (- int (IDX + 1)), score_e = char_of_int (- int (IDX + 1)),
         score_f = char_of_int (- int (IDX + 1))\<rparr>
      else
        let sigma = char_of_int (if read = ref_b ref then MATCH else - MATCH);
            ret_e = char_of_int (max (sint (score_v (smatrix ! (IDX + 0) ! 0)) - ALPHA)
                                     (sint (score_e (smatrix ! (IDX + 0) ! 0)) - BETA));
            ret_f = char_of_int (max (sint (score_v (smatrix ! (IDX - 1) ! 0)) - ALPHA)
                                     (sint (score_f (smatrix ! (IDX - 1) ! 0)) - BETA));
            ret_v = max_char (char_of_int (sint (score_v (smatrix ! (IDX - 1) ! 1)) + sint sigma))
                             (max_char ret_e ret_f)
        in \<lparr>score_v = ret_v, score_e = ret_e, score_f = ret_f\<rparr>)"

definition systolic_hop_synth ::
  "char8 list \<Rightarrow> sw_ref list \<Rightarrow> score list list \<Rightarrow> score list list" where
  "systolic_hop_synth left top' smatrix = systolic sw_op_rec left top' smatrix"

definition systolic_loop_synth ::
  "char8 list \<Rightarrow> sw_ref list \<Rightarrow> score list list \<Rightarrow> score list list" where
  "systolic_loop_synth left top' smatrix = sloop_systolic SW_HIST sw_op_loop left top' smatrix"

text \<open>The value that a \<^verbatim>\<open>char\<close> holds after an \<^verbatim>\<open>int\<close> has been stored into it.\<close>

definition char_value :: "int \<Rightarrow> int" where
  "char_value x = signed_take_bit 7 x"

section \<open>insertion_sort/test.cpp\<close>

text \<open>
  \<^verbatim>\<open>isort_t<int>\<close> is a pair of an \<^verbatim>\<open>int\<close> and the boundary flag.  The values are
  only compared and copied, never computed with, so that an \<^verbatim>\<open>int\<close> is an integer
  here.  Each of \<open>isort_hop_synth\<close> and \<open>isort_loop_synth\<close> keeps a
  \<^verbatim>\<open>static\<close> array \<open>arr\<close> between the calls: the model takes the array and
  returns the new one next to the result.  \<open>LIST_LENGTH\<close> is \<^verbatim>\<open>1 << 4\<close> in this test
  and in the arg-min test alike.
\<close>

definition LIST_LENGTH :: nat where "LIST_LENGTH = 16"

type_synonym isort_t = "int \<times> bool"

definition minOp :: "isort_t \<Rightarrow> isort_t list \<Rightarrow> isort_t list" where
  "minOp me past =
     (let in' = head past;
          comparison = (fst me < fst in' \<and> \<not> snd me);
          bump = (if comparison then fst in' else fst me, snd me);
          newme = (if comparison then fst me else fst in', snd in')
      in prepend bump (prepend newme (tail past)))"

definition isort_hop_synth :: "isort_t list \<Rightarrow> isort_t \<Rightarrow> isort_t \<times> isort_t list" where
  "isort_hop_synth arr IN =
     (let in' = [IN];
          out = rreduce minOp arr in';
          arr = tail out
      in (head out, arr))"

definition isort_loop_synth :: "isort_t list \<Rightarrow> isort_t \<Rightarrow> isort_t \<times> isort_t list" where
  "isort_loop_synth arr IN =
     (let (arr, bump) = for_downto (int LIST_LENGTH - 1) 0
            (\<lambda>i (arr, bump).
               let me = arr ! nat i;
                   comparison = (fst me < fst bump \<and> \<not> snd me);
                   newme = (if comparison then fst me else fst bump, snd bump);
                   bump = (if comparison then fst bump else fst me, snd me)
               in (arr[nat i := newme], bump))
            (arr, IN)
      in (bump, arr))"

text \<open>
  The test feeds \<^verbatim>\<open>input[i]\<close> for \<open>i = 0, \<dots>, 2 * LIST_LENGTH\<close>, but \<open>input\<close>
  has \<open>LIST_LENGTH\<close> elements: from \<open>i = LIST_LENGTH\<close> on the read is past the end of
  the array and returns whatever lies behind it in memory.  \<open>beyond k\<close> is the value
  found \<open>k\<close> places behind the array.  The static array starts zero-initialised.
\<close>

definition read_input :: "int list \<Rightarrow> (nat \<Rightarrow> int) \<Rightarrow> int \<Rightarrow> int" where
  "read_input input beyond i =
     (if i < int (length input) then input ! nat i else beyond (nat i - length input))"

definition isort_test ::
  "(isort_t list \<Rightarrow> isort_t \<Rightarrow> isort_t \<times> isort_t list) \<Rightarrow> int list \<Rightarrow> (nat \<Rightarrow> int)
    \<Rightarrow> int list" where
  "isort_test synth input beyond =
     (let arr = replicate LIST_LENGTH (0, False);
          output = uninit LIST_LENGTH;
          (arr, output) = for_from (- 1) (int LIST_LENGTH * 2 + 1)
            (\<lambda>i (arr, output).
               let in' = (if i = - 1 then 0 else read_input input beyond i,
                          i = int LIST_LENGTH \<or> i = - 1);
                   (out, arr) = synth arr in';
                   output = (if int LIST_LENGTH + 1 \<le> i \<and> i \<le> int LIST_LENGTH * 2
                             then output[nat (i - (int LIST_LENGTH + 1)) := Some (fst out)]
                             else output)
               in (arr, output))
            (arr, output)
      in contents output)"

text \<open>\<^verbatim>\<open>std::sort(gold.begin(), gold.end(), std::greater<int>())\<close>\<close>

definition gold_sort :: "int list \<Rightarrow> int list" where
  "gold_sort input = rev (sort input)"

section \<open>divconq.hpp\<close>

text \<open>
  \<open>DivconqHelper<LEV>\<close> takes an array of \<open>2^LEV\<close> elements.  The callable \<open>F\<close> is
  applied at two types: at the leaves (\<open>DivconqHelper<1>\<close>) to two arrays of one
  element, above them to two results; the model takes the two overloads as \<open>F1\<close> and
  \<open>F\<close>.  There is no \<open>DivconqHelper<0>\<close> (\<open>None\<close>).
\<close>

fun DivconqHelper ::
  "nat \<Rightarrow> ('a list \<Rightarrow> 'a list \<Rightarrow> 'b) \<Rightarrow> ('b \<Rightarrow> 'b \<Rightarrow> 'b) \<Rightarrow> 'a list \<Rightarrow> 'b option" where
  "DivconqHelper 0 F1 F IN = None"
| "DivconqHelper (Suc 0) F1 F IN = (let p = split 1 IN in Some (F1 (fst p) (snd p)))"
| "DivconqHelper (Suc (Suc LEV)) F1 F IN =
     (let p = split (2 ^ Suc LEV) IN in
      case (DivconqHelper (Suc LEV) F1 F (fst p), DivconqHelper (Suc LEV) F1 F (snd p)) of
        (Some l, Some r) \<Rightarrow> Some (F l r)
      | _ \<Rightarrow> None)"

definition divconq ::
  "('a list \<Rightarrow> 'a list \<Rightarrow> 'b) \<Rightarrow> ('b \<Rightarrow> 'b \<Rightarrow> 'b) \<Rightarrow> 'a list \<Rightarrow> 'b option" where
  "divconq F1 F IN = DivconqHelper (clog2 (length IN)) F1 F IN"

section \<open>argminmax/test.cpp\<close>

text \<open>
  \<^verbatim>\<open>struct argmin_t { T data; std::size_t idx, lev; }\<close>, with the name of the record
  in front of its fields; its call operator makes the entry \<open>{v, 0, 0}\<close> of a value
  (\<open>argmin_init\<close>).  \<open>argminop\<close> has an overload for two entries and one for two
  arrays of one entry (\<open>argminop_arr\<close>).  The index is a \<^verbatim>\<open>std::size_t\<close>; with
  16 elements no shift reaches its width.
\<close>

record 'a argmin_t =
  am_data :: 'a
  am_idx :: nat
  am_lev :: nat

definition argmin_init :: "'a \<Rightarrow> 'a argmin_t" where
  "argmin_init v = \<lparr>am_data = v, am_idx = 0, am_lev = 0\<rparr>"

definition argminop :: "'a::linorder argmin_t \<Rightarrow> 'a argmin_t \<Rightarrow> 'a argmin_t" where
  "argminop L R =
     (let b = am_data R < am_data L;
          lev = am_lev L;
          res = (if b then am_data R else am_data L);
          idx = push_bit lev (of_bool b AND 1) OR (if b then am_idx R else am_idx L)
      in \<lparr>am_data = res, am_idx = idx, am_lev = lev + 1\<rparr>)"

definition argminop_arr ::
  "'a::linorder argmin_t list \<Rightarrow> 'a argmin_t list \<Rightarrow> 'a argmin_t" where
  "argminop_arr L R = argminop (L ! 0) (R ! 0)"

definition argmin_loop_synth :: "int list \<Rightarrow> int \<times> nat" where
  "argmin_loop_synth IN =
     (let LEV = clog2 LIST_LENGTH;
          temp = replicate (LEV + 1) (uninit (2 ^ LEV));
          temp = for_upto 0 (2 ^ LEV)
            (\<lambda>idx temp.
               temp[0 := (temp ! 0)[idx := Some \<lparr>am_data = IN ! idx, am_idx = idx, am_lev = 0\<rparr>]])
            temp;
          temp = for_upto 1 (LEV + 1)
            (\<lambda>lev temp. for_upto 0 (2 ^ (LEV - lev))
               (\<lambda>idx temp. temp[lev := (temp ! lev)[idx :=
                   Some (argminop (the (temp ! (lev - 1) ! (2 * idx)))
                                  (the (temp ! (lev - 1) ! (2 * idx + 1))))]])
               temp)
            temp
      in (am_data (the (temp ! LEV ! 0)), am_idx (the (temp ! LEV ! 0))))"

definition argmin_hop_synth :: "int list \<Rightarrow> (int \<times> nat) option" where
  "argmin_hop_synth IN =
     (case divconq argminop_arr argminop (map_hops argmin_init IN) of
        None \<Rightarrow> None
      | Some out \<Rightarrow> Some (am_data out, am_idx out))"

text \<open>
  The linear scan of the test.  The test declares \<^verbatim>\<open>std::pair<int, std::size_t> gold;\<close>,
  which the default constructor of the pair sets to \<open>(0, 0)\<close>.  The pair the scan
  starts from is the parameter \<open>gold0\<close>.
\<close>

definition argmin_gold :: "int \<times> nat \<Rightarrow> int list \<Rightarrow> int \<times> nat" where
  "argmin_gold gold0 input =
     for_upto 0 LIST_LENGTH
       (\<lambda>i gold. if input ! i < fst gold then (input ! i, i) else gold) gold0"

section \<open>Arg-min: notions for the proof\<close>

text \<open>
  \<open>m\<close> is the least value of \<open>xs\<close> on the indices \<open>[lo, lo + n)\<close> and \<open>k\<close> is the
  first index there that holds it.
\<close>

definition block_min :: "'a::linorder list \<Rightarrow> nat \<Rightarrow> nat \<Rightarrow> 'a \<Rightarrow> nat \<Rightarrow> bool" where
  "block_min xs lo n m k \<longleftrightarrow>
     lo \<le> k \<and> k < lo + n \<and> xs ! k = m \<and>
     (\<forall>j. lo \<le> j \<and> j < lo + n \<longrightarrow> m \<le> xs ! j) \<and>
     (\<forall>j. lo \<le> j \<and> j < k \<longrightarrow> m < xs ! j)"

text \<open>The entry of the staged table at level \<open>l\<close>, position \<open>i\<close>.\<close>

fun argmin_tree :: "nat \<Rightarrow> nat \<Rightarrow> int list \<Rightarrow> int argmin_t" where
  "argmin_tree 0 i IN = \<lparr>am_data = IN ! i, am_idx = i, am_lev = 0\<rparr>"
| "argmin_tree (Suc l) i IN = argminop (argmin_tree l (2 * i) IN) (argmin_tree l (2 * i + 1) IN)"

text \<open>An entry of the divide-and-conquer form describes its own sub-array.\<close>

definition describes :: "int list \<Rightarrow> nat \<Rightarrow> int argmin_t \<Rightarrow> bool" where
  "describes ys l e \<longleftrightarrow> am_lev e = l \<and> block_min ys 0 (2 ^ l) (am_data e) (am_idx e)"

section \<open>Insertion sort: notions for the proof\<close>

text \<open>One cell of the buffer meets the travelling value: (new cell, new travelling value).\<close>

definition cell :: "isort_t \<Rightarrow> isort_t \<Rightarrow> isort_t \<times> isort_t" where
  "cell me bump =
     (if fst me < fst bump \<and> \<not> snd me then ((fst me, snd bump), (fst bump, snd me))
      else ((fst bump, snd bump), (fst me, snd me)))"

fun pass :: "isort_t list \<Rightarrow> isort_t \<Rightarrow> isort_t list \<times> isort_t" where
  "pass [] b = ([], b)"
| "pass (x # xs) b =
     (fst (cell x (snd (pass xs b))) # fst (pass xs b), snd (cell x (snd (pass xs b))))"

text \<open>Every cell hands its pair on: the buffer moves by one position as a whole.\<close>

fun shifts :: "isort_t list \<Rightarrow> isort_t \<Rightarrow> bool" where
  "shifts [] b = True"
| "shifts (y # ys) b = (shifts ys b \<and> (snd y \<or> fst (hd (ys @ [b])) \<le> fst y))"

text \<open>The front of the buffer while a batch comes in: zeros, then the opening marker.\<close>

fun zeros_mark :: "nat \<Rightarrow> isort_t list" where
  "zeros_mark 0 = []"
| "zeros_mark (Suc r) = replicate r (0, False) @ [(0, True)]"

text \<open>The part of the buffer that holds the first \<open>k\<close> values of the batch.\<close>

definition region :: "nat \<Rightarrow> int list \<Rightarrow> isort_t list \<Rightarrow> bool" where
  "region k input R \<longleftrightarrow>
     length R = k \<and> (\<forall>x\<in>set R. \<not> snd x) \<and> sorted_wrt (\<ge>) (map fst R) \<and>
     mset (map fst R) = mset (take k input)"

text \<open>One cycle of the test, with the call written as a pass through the buffer.\<close>

definition feed_in :: "int list \<Rightarrow> (nat \<Rightarrow> int) \<Rightarrow> int \<Rightarrow> isort_t" where
  "feed_in input beyond i =
     (if i = - 1 then 0 else read_input input beyond i, i = int LIST_LENGTH \<or> i = - 1)"

definition tstep ::
  "int list \<Rightarrow> (nat \<Rightarrow> int) \<Rightarrow> int
    \<Rightarrow> isort_t list \<times> int option list \<Rightarrow> isort_t list \<times> int option list" where
  "tstep input beyond i st =
     (fst (pass (fst st) (feed_in input beyond i)),
      if int LIST_LENGTH + 1 \<le> i \<and> i \<le> int LIST_LENGTH * 2
      then (snd st)[nat (i - (int LIST_LENGTH + 1))
              := Some (fst (snd (pass (fst st) (feed_in input beyond i))))]
      else snd st)"

definition synth_ok :: "(isort_t list \<Rightarrow> isort_t \<Rightarrow> isort_t \<times> isort_t list) \<Rightarrow> bool" where
  "synth_ok synth \<longleftrightarrow>
     (\<forall>arr IN. length arr = LIST_LENGTH \<longrightarrow> synth arr IN = (snd (pass arr IN), fst (pass arr IN)))"

section \<open>What the loops compute\<close>

lemma for_upto_fold: "for_upto i n body s = fold body [i..<n] s"
proof (induction i n body s rule: for_upto.induct)
  case (1 i n body s)
  show ?case
  proof (cases "i < n")
    case True
    then show ?thesis
      using "1" by (subst for_upto.simps) (simp add: upt_conv_Cons)
  next
    case False
    then show ?thesis by (subst for_upto.simps) simp
  qed
qed

lemma fold_write_offset:
  "c + n \<le> length r \<Longrightarrow>
   fold (\<lambda>i r. r[c + i := h i]) [0..<n] r = take c r @ map h [0..<n] @ drop (c + n) r"
proof (induction n)
  case 0
  then show ?case by simp
next
  case (Suc n)
  then have len: "c + n < length r" by simp
  have "fold (\<lambda>i r. r[c + i := h i]) [0..<Suc n] r
        = (take c r @ map h [0..<n] @ drop (c + n) r)[c + n := h n]"
    using Suc by simp
  also have "\<dots> = take c r @ map h [0..<n] @ (drop (c + n) r)[0 := h n]"
    using len by (simp add: list_update_append)
  also have "(drop (c + n) r)[0 := h n] = h n # drop (c + Suc n) r"
    using len by (simp add: Cons_nth_drop_Suc [symmetric])
  finally show ?case by simp
qed

lemma for_upto_write:
  "c + n \<le> length r \<Longrightarrow>
   for_upto 0 n (\<lambda>i r. r[c + i := h i]) r = take c r @ map h [0..<n] @ drop (c + n) r"
  by (simp add: for_upto_fold fold_write_offset)

lemma for_upto_write0:
  "n \<le> length r \<Longrightarrow>
   for_upto 0 n (\<lambda>i r. r[i := h i]) r = map h [0..<n] @ drop n r"
  using for_upto_write [of 0 n r h] by simp

lemma for_upto_write1:
  "Suc n \<le> length r \<Longrightarrow>
   for_upto 0 n (\<lambda>i r. r[i + 1 := h i]) r = take 1 r @ map h [0..<n] @ drop (Suc n) r"
  using for_upto_write [of 1 n r h] by simp

lemma fold_two_counters:
  "fold (\<lambda>idx (ridx, res). (Suc ridx, g ridx idx res)) [0..<n] (c, r)
   = (c + n, fold (\<lambda>idx res. g (c + idx) idx res) [0..<n] r)"
  by (induction n) simp_all

lemma for_upto_two_counters:
  "for_upto 0 n (\<lambda>idx (ridx, res). (Suc ridx, g ridx idx res)) (c, r)
   = (c + n, for_upto 0 n (\<lambda>idx res. g (c + idx) idx res) r)"
  by (simp add: for_upto_fold fold_two_counters)

lemma contents_Some [simp]: "contents (map Some xs) = xs"
  by (simp add: contents_def comp_def)

lemma contents_nil [simp]: "contents (uninit 0) = []"
  by (simp add: contents_def uninit_def)

lemma contents_Cons [simp]: "contents (Some x # r) = x # contents r"
  by (simp add: contents_def)

lemma contents_append [simp]: "contents (r @ r') = contents r @ contents r'"
  by (simp add: contents_def)

lemma contents_empty [simp]: "contents [] = []"
  by (simp add: contents_def)

lemma map_nth_upt: "n \<le> length xs \<Longrightarrow> map (\<lambda>i. xs ! i) [0..<n] = take n xs"
  by (rule nth_equalityI) simp_all

lemma map_nth_upt_offset:
  "c + n \<le> length xs \<Longrightarrow> map (\<lambda>i. xs ! (c + i)) [0..<n] = take n (drop c xs)"
  by (rule nth_equalityI) simp_all

lemma map_Some_nth: "map (\<lambda>i. Some (f i)) [0..<n] = map Some (map f [0..<n])"
  by simp

lemma prepend_eq: "prepend V IN = V # IN"
proof -
  have "for_upto 0 (length IN) (\<lambda>idx res. res[idx + 1 := Some (IN ! idx)])
          ((uninit (length IN + 1))[0 := Some V])
        = map Some (V # map (\<lambda>i. IN ! i) [0..<length IN])"
    by (subst for_upto_write1) (simp_all add: uninit_def comp_def)
  then show ?thesis
    unfolding prepend_def Let_def by (simp add: map_nth_upt del: list.map)
qed

lemma append_hops_eq: "append_hops IN V = IN @ [V]"
proof -
  have "replicate (length IN + 1) (None :: 'a option) = replicate (length IN) None @ [None]"
    by (simp add: replicate_append_same)
  then have "drop (length IN) (replicate (length IN + 1) (None :: 'a option)) = [None]"
    by (simp del: replicate_Suc)
  then have "for_upto 0 (length IN) (\<lambda>idx res. res[idx := Some (IN ! idx)])
          (uninit (length IN + 1))
        = map Some IN @ [None]"
    by (subst for_upto_write0) (simp_all add: uninit_def map_Some_nth map_nth_upt)
  then have "(for_upto 0 (length IN) (\<lambda>idx res. res[idx := Some (IN ! idx)])
          (uninit (length IN + 1)))[length IN := Some V]
        = map Some (IN @ [V])"
    by (simp add: list_update_append)
  then show ?thesis
    unfolding append_hops_def Let_def by (simp only: contents_Some)
qed

lemma tail_eq: "tail IN = tl IN"
proof -
  have "for_upto 0 (length IN - 1) (\<lambda>idx res. res[idx := Some (IN ! (idx + 1))])
          (uninit (length IN - 1))
        = map Some (map (\<lambda>i. IN ! (1 + i)) [0..<length IN - 1])"
    by (subst for_upto_write0) (simp_all add: uninit_def comp_def)
  moreover have "map (\<lambda>i. IN ! (1 + i)) [0..<length IN - 1] = tl IN"
    by (rule nth_equalityI) (simp_all add: nth_tl)
  ultimately show ?thesis
    unfolding tail_def Let_def by (simp only: contents_Some)
qed

lemma head_eq: "head (x # xs) = x"
  by (simp add: head_def)

lemma concatenate_eq: "concatenate L R = L @ R"
proof -
  let ?res1 = "for_upto 0 (length L) (\<lambda>idx res. res[idx := Some (L ! idx)])
                 (uninit (length L + length R))"
  have res1: "?res1 = map Some L @ replicate (length R) None"
    by (subst for_upto_write0) (simp_all add: uninit_def map_Some_nth map_nth_upt)
  have "for_upto 0 (length R)
          (\<lambda>idx (ridx, res). (Suc ridx, res[ridx := Some (R ! idx)])) (length L, ?res1)
        = (length L + length R, map Some (L @ R))"
    unfolding for_upto_two_counters res1
    by (subst for_upto_write) (simp_all add: map_Some_nth map_nth_upt)
  then show ?thesis
    unfolding concatenate_def Let_def by (simp only: prod.case contents_Some)
qed

lemma split_eq: "split IDX IN = (take IDX IN, drop IDX IN)"
proof -
  define llen where "llen = (if IDX > length IN then length IN else IDX)"
  define rlen where "rlen = (if IDX > length IN then 0 else length IN - IDX)"
  have "llen \<le> length IN" and "take llen IN = take IDX IN"
    by (simp_all add: llen_def)
  then have l: "for_upto 0 llen (\<lambda>idx l. l[idx := Some (IN ! idx)]) (uninit llen)
           = map Some (take IDX IN)"
    by (subst for_upto_write0) (simp_all add: uninit_def map_Some_nth map_nth_upt)
  have r: "for_upto 0 rlen (\<lambda>idx (ridx, r). (Suc ridx, r[idx := Some (IN ! ridx)]))
          (llen, uninit rlen)
        = (llen + rlen, map Some (map (\<lambda>i. IN ! (llen + i)) [0..<rlen]))"
    unfolding for_upto_two_counters
    by (subst for_upto_write0) (simp_all add: uninit_def comp_def)
  have "llen + rlen \<le> length IN" and "take rlen (drop llen IN) = drop IDX IN"
    by (simp_all add: llen_def rlen_def)
  then have "map (\<lambda>i. IN ! (llen + i)) [0..<rlen] = drop IDX IN"
    by (simp add: map_nth_upt_offset)
  then show ?thesis
    unfolding split_def Let_def llen_def [symmetric] rlen_def [symmetric] l r
    by (simp only: prod.case contents_Some)
qed

lemma map_loop_eq: "map_loop F IN = map F IN"
proof -
  have "for_upto 0 (length IN) (\<lambda>i temp. temp[i := Some (F (IN ! i))]) (uninit (length IN))
        = map Some (map (\<lambda>i. F (IN ! i)) [0..<length IN])"
    by (subst for_upto_write0) (simp_all add: uninit_def comp_def)
  moreover have "map (\<lambda>i. F (IN ! i)) [0..<length IN] = map F IN"
    by (rule nth_equalityI) simp_all
  ultimately show ?thesis
    unfolding map_loop_def Let_def by (simp only: contents_Some)
qed

lemma MapHelper_eq: "length IN = LEN \<Longrightarrow> MapHelper LEN F IN = map F IN"
proof (induction LEN arbitrary: IN)
  case 0
  then show ?case by simp
next
  case (Suc LEN)
  then obtain x xs where IN: "IN = x # xs" and "length xs = LEN"
    by (cases IN) auto
  then show ?case
    using Suc.IH [of xs] by (simp add: prepend_eq tail_eq)
qed

lemma lreduce_helper_eq:
  "length IN = LEN \<Longrightarrow> ReduceHelper_lreduce LEN F INIT IN = foldl F INIT IN"
proof (induction LEN arbitrary: IN INIT)
  case 0
  then show ?case by simp
next
  case (Suc LEN)
  then obtain x xs where IN: "IN = x # xs" and "length xs = LEN"
    by (cases IN) auto
  then show ?case
    using Suc.IH [of xs] by (simp add: head_eq tail_eq)
qed

lemma rreduce_helper_eq:
  "length IN = LEN \<Longrightarrow> ReduceHelper_rreduce LEN F IN INIT = foldr F IN INIT"
proof (induction LEN arbitrary: IN)
  case 0
  then show ?case by simp
next
  case (Suc LEN)
  then obtain x xs where IN: "IN = x # xs" and "length xs = LEN"
    by (cases IN) auto
  then show ?case
    using Suc.IH [of xs] by (simp add: head_eq tail_eq)
qed

lemma lreduce_eq: "lreduce F INIT IN = foldl F INIT IN"
  by (simp add: lreduce_def lreduce_helper_eq)

lemma rreduce_eq: "rreduce F IN INIT = foldr F IN INIT"
  by (simp add: rreduce_def rreduce_helper_eq)

lemma XipHelper_zip_eq:
  "length L = LEN \<Longrightarrow> length R = LEN \<Longrightarrow> XipHelper_zip LEN L R = zip L R"
proof (induction LEN arbitrary: L R)
  case 0
  then show ?case by simp
next
  case (Suc LEN)
  then obtain x xs y ys where "L = x # xs" "R = y # ys" "length xs = LEN" "length ys = LEN"
    by (cases L; cases R) auto
  then show ?case
    using Suc.IH [of xs ys] by (simp add: prepend_eq tail_eq)
qed

lemma XipHelper_unzip_eq:
  "length IN = LEN \<Longrightarrow> XipHelper_unzip LEN IN = (map fst IN, map snd IN)"
proof (induction LEN arbitrary: IN)
  case 0
  then show ?case by simp
next
  case (Suc LEN)
  then obtain x xs where "IN = x # xs" "length xs = LEN"
    by (cases IN) auto
  then show ?case
    using Suc.IH [of xs] by (simp add: prepend_eq tail_eq)
qed


lemma map_hops_eq: "map_hops F IN = map F IN"
  by (simp add: map_hops_def MapHelper_eq)

lemma zip_hops_eq: "length L = length R \<Longrightarrow> zip_hops L R = zip L R"
  by (simp add: zip_hops_def XipHelper_zip_eq)

lemma unzip_eq: "unzip IN = (map fst IN, map snd IN)"
  by (simp add: unzip_def XipHelper_unzip_eq)

section \<open>map: the recursive form and the loop form agree\<close>

text \<open>
  Claim C1.  For every unary callable \<open>F\<close> and every input array \<open>IN\<close>, the recursive
  form \<open>map_hops\<close> and the loop form \<open>map_loop\<close> return the same array; it has the
  length of \<open>IN\<close>, and its element \<open>i\<close> is \<open>F\<close> applied to element \<open>i\<close> of \<open>IN\<close>.
\<close>

theorem map_forms_agree:
  "map_hops F IN = map_loop F IN \<and>
   length (map_hops F IN) = length IN \<and>
   length (map_loop F IN) = length IN \<and>
   (\<forall>i<length IN. map_hops F IN ! i = F (IN ! i) \<and> map_loop F IN ! i = F (IN ! i))"
  by (simp add: map_hops_eq map_loop_eq)

theorem map_forms_agree_witness:
  "map_hops uminus [3, - 1, 4 :: int] = map_loop uminus [3, - 1, 4] \<and>
   length (map_hops uminus [3, - 1, 4 :: int]) = 3 \<and>
   map_hops uminus [3, - 1, 4 :: int] ! 2 = - 4"
  using map_forms_agree [of uminus "[3, - 1, 4 :: int]"] by simp

section \<open>reduce: the two folds\<close>

text \<open>
  Claim C5.  For every combining callable, every initial value (of a type of its own)
  and every array \<open>a\<close>: \<open>lreduce F init a\<close> is \<open>init\<close> when \<open>a\<close> has length 0 and
  \<open>lreduce F (F init (head a)) (tail a)\<close> otherwise; \<open>rreduce G a init\<close> is \<open>init\<close>
  when \<open>a\<close> has length 0 and \<open>G (head a) (rreduce G (tail a) init)\<close> otherwise.
\<close>

theorem reduce_recursion:
  "(length a = 0 \<longrightarrow> lreduce F init a = init) \<and>
   (length a \<noteq> 0 \<longrightarrow> lreduce F init a = lreduce F (F init (head a)) (tail a)) \<and>
   (length a = 0 \<longrightarrow> rreduce G a init' = init') \<and>
   (length a \<noteq> 0 \<longrightarrow> rreduce G a init' = G (head a) (rreduce G (tail a) init'))"
  by (cases a) (simp_all add: lreduce_eq rreduce_eq tail_eq head_eq)

theorem reduce_recursion_witness:
  "lreduce (\<lambda>acc x. acc - x) (10 :: int) [1, 2, 3]
     = lreduce (\<lambda>acc x. acc - x) (10 - head [1, 2, 3]) (tail [1, 2, 3]) \<and>
   rreduce (\<lambda>x acc. x # acc) [1, 2, 3 :: int] []
     = head [1, 2, 3] # rreduce (\<lambda>x acc. x # acc) (tail [1, 2, 3]) [] \<and>
   lreduce (\<lambda>acc x. acc - x) (10 :: int) [] = 10 \<and>
   rreduce (\<lambda>x acc. x # acc) ([] :: int list) [] = []"
  using reduce_recursion [of "[1, 2, 3 :: int]" "\<lambda>acc x. acc - x" 10 "\<lambda>x acc. x # acc" "[]"]
    reduce_recursion [of "[] :: int list" "\<lambda>acc x. acc - x" 10 "\<lambda>x acc. x # acc" "[]"]
  by simp

section \<open>split and concatenate\<close>

text \<open>
  Claim C6.  For every array \<open>A\<close> of length \<open>N\<close> and every split index \<open>k\<close>,
  \<open>split k A\<close> is a pair of arrays of lengths \<open>min k N\<close> and \<open>max (N - k) 0\<close>, the first
  holding the elements of \<open>A\<close> at the indices \<open>[0, k)\<close>, the second those at
  \<open>[k, N)\<close>, and concatenating the two gives \<open>A\<close> back.
\<close>

theorem split_concatenate:
  "length (fst (split k A)) = min k (length A) \<and>
   int (length (snd (split k A))) = max (int (length A) - int k) 0 \<and>
   (\<forall>i<min k (length A). fst (split k A) ! i = A ! i) \<and>
   (\<forall>i<length A - k. snd (split k A) ! i = A ! (k + i)) \<and>
   concatenate (fst (split k A)) (snd (split k A)) = A"
  by (auto simp add: split_eq concatenate_eq)

theorem split_concatenate_witness:
  "split 2 [10, 20, 30, 40, 50 :: int] = ([10, 20], [30, 40, 50]) \<and>
   concatenate (fst (split 2 [10, 20, 30, 40, 50 :: int]))
     (snd (split 2 [10, 20, 30, 40, 50 :: int])) = [10, 20, 30, 40, 50]"
proof -
  note C = split_concatenate [of 2 "[10, 20, 30, 40, 50 :: int]"]
  have l: "length (fst (split 2 [10, 20, 30, 40, 50 :: int])) = 2"
    and r: "length (snd (split 2 [10, 20, 30, 40, 50 :: int])) = 3"
    using C by simp_all
  have "fst (split 2 [10, 20, 30, 40, 50 :: int]) = [10, 20]"
    by (rule nth_equalityI) (use C l in \<open>auto simp add: less_Suc_eq numeral_2_eq_2\<close>)
  moreover have "snd (split 2 [10, 20, 30, 40, 50 :: int]) = [30, 40, 50]"
    by (rule nth_equalityI) (use C r in \<open>auto simp add: less_Suc_eq numeral_3_eq_3\<close>)
  ultimately show ?thesis
    using C by (simp add: prod_eq_iff)
qed

section \<open>zip and unzip\<close>

text \<open>
  Claim C7.  For every array \<open>P\<close> of two-element tuples, zipping the pair of arrays
  that \<open>unzip P\<close> returns gives \<open>P\<close> back; for every two arrays \<open>L\<close> and \<open>R\<close> of
  equal length, \<open>unzip (zip L R)\<close> is the pair \<open>(L, R)\<close>.
\<close>

theorem zip_unzip_inverse:
  "zip_hops (fst (unzip P)) (snd (unzip P)) = P \<and>
   (length L = length R \<longrightarrow> unzip (zip_hops L R) = (L, R))"
  by (simp add: unzip_eq zip_hops_eq zip_map_fst_snd)

theorem zip_unzip_inverse_witness:
  "zip_hops (fst (unzip [(1 :: int, True), (2, False)])) (snd (unzip [(1 :: int, True), (2, False)]))
     = [(1, True), (2, False)] \<and>
   unzip (zip_hops [1, 2 :: int] [True, False]) = ([1, 2], [True, False])"
  using zip_unzip_inverse [of "[(1 :: int, True), (2, False)]" "[1, 2 :: int]" "[True, False]"]
  by simp

section \<open>The rotations\<close>

text \<open>
  Claim C10.  For every non-empty array \<open>A\<close>, \<open>lrotate (rrotate A) = A\<close> and
  \<open>rrotate (lrotate A) = A\<close>: the rotation to the right by one position and the
  rotation to the left by one position are inverse to each other.
\<close>

lemma rrotate_eq:
  assumes "A \<noteq> []"
  shows "rrotate A = last A # butlast A"
proof -
  have A: "A = butlast A @ [last A]"
    using assms by simp
  have "drop (length A - 1) A = [last A]"
    by (subst (2) A) simp
  moreover have "take (length A - 1) A = butlast A"
    by (simp add: butlast_conv_take)
  ultimately show ?thesis
    using assms
    by (simp add: rrotate_def uncurry_def flip_def split_eq concatenate_eq size_t_pred_def)
qed

lemma lrotate_eq: "A \<noteq> [] \<Longrightarrow> lrotate A = tl A @ [hd A]"
  by (cases A) (simp_all add: lrotate_def uncurry_def flip_def split_eq concatenate_eq)

theorem rotate_inverse:
  "A \<noteq> [] \<Longrightarrow> lrotate (rrotate A) = A \<and> rrotate (lrotate A) = A"
  by (simp add: rrotate_eq lrotate_eq)

theorem rotate_inverse_witness:
  "[1, 2, 3 :: int] \<noteq> [] \<and> lrotate (rrotate [1, 2, 3 :: int]) = [1, 2, 3] \<and>
   rrotate (lrotate [1, 2, 3 :: int]) = [1, 2, 3]"
  using rotate_inverse [of "[1, 2, 3 :: int]"] by simp


lemma check_loop_equal:
  "(\<forall>j. i \<le> j \<and> j < length TGT \<longrightarrow> TGT ! j = GOLD ! j) \<Longrightarrow> length TGT < 2 ^ 31 \<Longrightarrow>
   check_loop TGT GOLD i = (Some 0, TGT, GOLD)"
proof (induction TGT GOLD i rule: check_loop.induct)
  case (1 TGT GOLD i)
  show ?case
  proof (cases "i < length TGT")
    case True
    then have "\<not> (2 :: nat) ^ 31 \<le> i + 1" "TGT ! i = GOLD ! i"
      using "1.prems" by auto
    then show ?thesis
      using True "1.IH" "1.prems" by (subst check_loop.simps) auto
  next
    case False
    then show ?thesis by (subst check_loop.simps) simp
  qed
qed

lemma check_loop_mismatch:
  "i \<le> k \<Longrightarrow> k < length TGT \<Longrightarrow> TGT ! k \<noteq> GOLD ! k \<Longrightarrow>
   (\<forall>j. i \<le> j \<and> j < k \<longrightarrow> TGT ! j = GOLD ! j) \<Longrightarrow> length TGT < 2 ^ 31 \<Longrightarrow>
   check_loop TGT GOLD i = (Some (- (int k + 1)), TGT, GOLD)"
proof (induction TGT GOLD i rule: check_loop.induct)
  case (1 TGT GOLD i)
  have i: "i < length TGT" "\<not> (2 :: nat) ^ 31 \<le> i + 1"
    using "1.prems" by auto
  show ?case
  proof (cases "i = k")
    case True
    then show ?thesis
      using i "1.prems" by (subst check_loop.simps) simp
  next
    case False
    then have "TGT ! i = GOLD ! i" "Suc i \<le> k"
      using "1.prems" by auto
    then show ?thesis
      using i "1.IH" "1.prems" by (subst check_loop.simps) auto
  qed
qed

lemma check_differ:
  assumes "length TGT = length GOLD" and "length TGT < 2 ^ 31" and "TGT \<noteq> GOLD"
  shows "\<exists>k<length TGT. check TGT GOLD = (Some (- (int k + 1)), TGT, GOLD)"
proof -
  have "\<exists>k. k < length TGT \<and> TGT ! k \<noteq> GOLD ! k"
    using assms(1,3) by (metis nth_equalityI)
  then obtain k where k: "k < length TGT \<and> TGT ! k \<noteq> GOLD ! k"
    and least: "\<forall>j<k. \<not> (j < length TGT \<and> TGT ! j \<noteq> GOLD ! j)"
    using exists_least_iff [of "\<lambda>k. k < length TGT \<and> TGT ! k \<noteq> GOLD ! k"] by auto
  have "check_loop TGT GOLD 0 = (Some (- (int k + 1)), TGT, GOLD)"
    using k least assms(2) by (intro check_loop_mismatch) auto
  then show ?thesis
    using k by (auto simp add: check_def)
qed

section \<open>check\<close>

text \<open>
  Claim C8.  For two arrays \<open>TGT\<close> and \<open>GOLD\<close> of equal length, \<open>check\<close> returns 0
  when all pairs of corresponding elements are equal, and otherwise \<open>-(i + 1)\<close> for the
  index \<open>i\<close> of the first pair of unequal elements; both arrays are as they were.
  (Arrays have fewer than \<open>2^31\<close> elements.)
\<close>

theorem check_first_mismatch:
  assumes "length TGT = length GOLD" and "length TGT < 2 ^ 31"
  shows "((\<forall>i<length TGT. TGT ! i = GOLD ! i) \<longrightarrow> check TGT GOLD = (Some 0, TGT, GOLD)) \<and>
         (\<forall>k<length TGT. TGT ! k \<noteq> GOLD ! k \<and> (\<forall>j<k. TGT ! j = GOLD ! j) \<longrightarrow>
            check TGT GOLD = (Some (- (int k + 1)), TGT, GOLD))"
  using assms by (simp add: check_def check_loop_equal check_loop_mismatch)

theorem check_first_mismatch_witness:
  "check [1, 2, 3 :: int] [1, 2, 3] = (Some 0, [1, 2, 3], [1, 2, 3]) \<and>
   check [1, 2, 3 :: int] [1, 5, 4] = (Some (- 2), [1, 2, 3], [1, 5, 4])"
proof -
  have "check [1, 2, 3 :: int] [1, 2, 3] = (Some 0, [1, 2, 3], [1, 2, 3])"
    using check_first_mismatch [of "[1, 2, 3 :: int]" "[1, 2, 3]"] by simp
  moreover have "check [1, 2, 3 :: int] [1, 5, 4] = (Some (- 2), [1, 2, 3], [1, 5, 4])"
    using check_first_mismatch [of "[1, 2, 3 :: int]" "[1, 5, 4]", THEN conjunct2, rule_format, of 1]
    by simp
  ultimately show ?thesis by simp
qed

section \<open>range\<close>

text \<open>
  When \<open>STEP\<close> divides \<open>STOP - START\<close> the loop fills the array exactly: it makes
  \<open>(STOP - START) / STEP\<close> assignments, at the indices below that length.
\<close>

lemma range_loop_exact:
  assumes "0 < STEP" and "STOP = START + n * STEP" and "STOP < 2 ^ 64"
  shows "idx \<le> n \<Longrightarrow> length temp = n \<Longrightarrow>
    range_loop STOP STEP (START + idx * STEP) idx temp
    = Inr (take idx temp @ map (\<lambda>i. Some (START + i * STEP)) [idx..<n])"
proof (induction "n - idx" arbitrary: idx temp)
  case 0
  then have "idx = n" by simp
  then show ?case
    using 0 assms by (subst range_loop.simps) simp
next
  case (Suc d)
  then have idx: "idx < n" by simp
  let ?v = "START + idx * STEP"
  have "?v + STEP \<le> STOP"
  proof -
    have "Suc idx * STEP \<le> n * STEP"
      using idx by (intro mult_le_mono1) simp
    then show ?thesis
      using assms(2) by simp
  qed
  then have lt: "?v < STOP" and wrap: "(?v + STEP) mod 2 ^ 64 = START + Suc idx * STEP"
    using assms(1,3) by simp_all
  have "range_loop STOP STEP ?v idx temp
        = range_loop STOP STEP (START + Suc idx * STEP) (Suc idx) (temp[idx := Some ?v])"
    using lt idx Suc.prems wrap by (subst range_loop.simps) simp
  also have "\<dots> = Inr (take (Suc idx) (temp[idx := Some ?v])
                        @ map (\<lambda>i. Some (START + i * STEP)) [Suc idx..<n])"
    using Suc.hyps(2) Suc.prems idx by (intro Suc.hyps(1)) simp_all
  also have "take (Suc idx) (temp[idx := Some ?v]) = take idx temp @ [Some ?v]"
    using idx Suc.prems by (simp add: take_Suc_conv_app_nth)
  finally show ?case
    using idx by (simp add: upt_conv_Cons)
qed

lemma range_hops_exact:
  assumes "0 < STEP" and "START \<le> STOP" and "STEP dvd STOP - START" and "STOP < 2 ^ 64"
  shows "range_hops STOP START STEP
         = Inr (map (\<lambda>i. START + i * STEP) [0..<(STOP - START) div STEP])"
proof -
  let ?n = "(STOP - START) div STEP"
  have STOP: "STOP = START + ?n * STEP"
    using assms(2,3) by simp
  have "range_loop STOP STEP (START + 0 * STEP) 0 (uninit ?n)
        = Inr (take 0 (uninit ?n) @ map (\<lambda>i. Some (START + i * STEP)) [0..<?n])"
    using assms(1) STOP assms(4) by (rule range_loop_exact) (simp_all add: uninit_def)
  then show ?thesis
    using assms(1,2) by (simp add: range_hops_def contents_def comp_def)
qed

text \<open>
  Claim C9 says that for every \<open>STOP \<ge> START\<close> and \<open>STEP \<ge> 1\<close> the loop of \<open>range\<close>
  makes exactly \<open>(STOP - START) / STEP\<close> assignments, all of them below the declared
  length \<open>(STOP - START) / STEP\<close>.  For \<^verbatim>\<open>range<5, 0, 2>()\<close> the array has two
  elements and the loop runs for \<open>v = 0, 2, 4\<close>: its third assignment is to index 2,
  past the end of the array.
\<close>

theorem range_step_overruns: "range_hops 5 0 2 = Inl (OutOfBounds 2)"
  by (simp add: range_hops_def range_loop.simps uninit_def)

section \<open>The systolic scaffold\<close>

lemma XipHelper_zipWith_eq:
  "length A = LEN \<Longrightarrow> length B = LEN \<Longrightarrow> XipHelper_zipWith LEN F A B = map2 F A B"
proof (induction LEN arbitrary: A B)
  case 0
  then show ?case by simp
next
  case (Suc LEN)
  then obtain x xs y ys where "A = x # xs" "B = y # ys" "length xs = LEN" "length ys = LEN"
    by (cases A; cases B) auto
  then show ?case
    using Suc.IH [of xs ys] by (simp add: prepend_eq tail_eq)
qed

lemma XipHelper_zipWith3_eq:
  "length A = LEN \<Longrightarrow> length B = LEN \<Longrightarrow> length C = LEN \<Longrightarrow>
   XipHelper_zipWith3 LEN F A B C = map (\<lambda>i. F (A ! i) (B ! i) (C ! i)) [0..<LEN]"
proof (induction LEN arbitrary: A B C)
  case 0
  then show ?case by simp
next
  case (Suc LEN)
  then obtain x xs y ys z zs where *: "A = x # xs" "B = y # ys" "C = z # zs"
      "length xs = LEN" "length ys = LEN" "length zs = LEN"
    by (cases A; cases B; cases C) auto
  then show ?case
    using Suc.IH [of xs ys zs] by (simp add: prepend_eq tail_eq map_upt_Suc del: upt_Suc)
qed

lemma foldl_wrapper:
  "k \<le> length left \<Longrightarrow>
   foldl (wrapper F) ([], []) (map (\<lambda>i. triplizer (left ! i) (top' ! i) (smatrix ! i)) [0..<k])
   = (map (\<lambda>r. F (left ! r) (top' ! r) (rev (map (\<lambda>i. smatrix ! i) [0..<Suc r]))) [0..<k],
      rev (map (\<lambda>i. smatrix ! i) [0..<k]))"
proof (induction k)
  case 0
  then show ?case by simp
next
  case (Suc k)
  then show ?case
    by (simp add: wrapper_def triplizer_def prepend_eq append_hops_eq Let_def)
qed

lemma systolic_eq:
  assumes "length left = H" "length top' = H" "length smatrix = H"
  shows "systolic F left top' smatrix
         = map (\<lambda>r. F (left ! r) (top' ! r) (rev (take (Suc r) smatrix)) # butlast (smatrix ! r))
             [0..<H]"
proof -
  have newcol: "fst (lreduce (partial wrapper F) ([], []) (zipWith3 triplizer left top' smatrix))
        = map (\<lambda>r. F (left ! r) (top' ! r) (rev (map (\<lambda>i. smatrix ! i) [0..<Suc r]))) [0..<H]"
    using assms foldl_wrapper [of H left F top' smatrix]
    by (simp add: zipWith3_def XipHelper_zipWith3_eq lreduce_eq partial_def [abs_def])
  have take: "map (\<lambda>i. smatrix ! i) [0..<Suc r] = take (Suc r) smatrix" if "r < H" for r
    using that assms by (intro map_nth_upt) simp
  have rs: "rshift V IN = V # butlast IN" for V :: 'c and IN
    by (cases "IN = []")
      (simp_all add: rshift_def prepend_eq split_eq size_t_pred_def butlast_conv_take)
  show ?thesis
    unfolding systolic_def Let_def contents_nil newcol
    using assms
    by (auto simp add: zipWith_def XipHelper_zipWith_eq rs take intro!: nth_equalityI
        simp del: upt_Suc)
qed


lemma for_upto_modify:
  "n \<le> length r \<Longrightarrow>
   for_upto 0 n (\<lambda>i r. r[i := g i (r ! i)]) r = map (\<lambda>i. g i (r ! i)) [0..<n] @ drop n r"
proof (induction n)
  case 0
  then show ?case by (simp add: for_upto_fold)
next
  case (Suc n)
  then have len: "n < length r" by simp
  let ?pre = "map (\<lambda>i. g i (r ! i)) [0..<n]"
  have "for_upto 0 (Suc n) (\<lambda>i r. r[i := g i (r ! i)]) r
        = (?pre @ drop n r)[n := g n ((?pre @ drop n r) ! n)]"
    using Suc by (simp add: for_upto_fold)
  also have "(?pre @ drop n r) ! n = r ! n"
    using len by (simp add: nth_append)
  also have "(?pre @ drop n r)[n := g n (r ! n)] = ?pre @ (drop n r)[0 := g n (r ! n)]"
    by (simp add: list_update_append)
  also have "(drop n r)[0 := g n (r ! n)] = g n (r ! n) # drop (Suc n) r"
    using len by (simp add: Cons_nth_drop_Suc [symmetric])
  finally show ?case by simp
qed

lemma sloop_systolic_eq:
  "sloop_systolic 2 F left top' smatrix
   = map (\<lambda>r. [F r (left ! r) (top' ! r) smatrix, smatrix ! r ! 0]) [0..<length smatrix]"
proof -
  let ?H = "length smatrix"
  let ?cell = "\<lambda>row. F row (left ! row) (top' ! row) smatrix"
  have newcol: "for_upto 0 ?H (\<lambda>row newcol. newcol[row := Some (?cell row)]) (uninit ?H)
                = map (\<lambda>row. Some (?cell row)) [0..<?H]"
    by (subst for_upto_write0) (simp_all add: uninit_def)
  have inner: "for_downto (int 2 - 1) 1 body r = body 1 r" for body :: "int \<Rightarrow> 'x \<Rightarrow> 'x" and r
    by (simp add: for_downto.simps)
  let ?g = "\<lambda>row old.
      (old[nat 1 := Some (smatrix ! row ! (nat 1 - 1))])[0 := map (\<lambda>row. Some (?cell row)) [0..<?H] ! row]"
  have "for_upto 0 ?H (\<lambda>row newsmatrix. newsmatrix[row := ?g row (newsmatrix ! row)])
          (replicate ?H (uninit 2))
        = map (\<lambda>row. ?g row (replicate ?H (uninit 2) ! row)) [0..<?H]"
    by (subst for_upto_modify) simp_all
  also have "\<dots> = map (\<lambda>row. [Some (?cell row), Some (smatrix ! row ! 0)]) [0..<?H]"
    by (rule map_cong) (simp_all add: uninit_def numeral_2_eq_2)
  finally show ?thesis
    unfolding sloop_systolic_def Let_def newcol inner
    by (simp add: comp_def)
qed

lemma sw_op_rec_window:
  assumes "0 < row" "row < length smatrix"
  shows "sw_op_rec read ref (rev (take (Suc row) smatrix)) = sw_op_loop row read ref smatrix"
proof -
  let ?w = "rev (take (Suc row) smatrix)"
  have len: "length ?w = Suc row"
    using assms by simp
  have "?w ! 0 = smatrix ! row" "?w ! 1 = smatrix ! (row - 1)"
    using assms by (simp_all add: rev_nth)
  then show ?thesis
    using assms len by (simp add: sw_op_rec_def sw_op_loop_def Let_def)
qed

lemma sint_char_of_int: "sint (char_of_int x) = char_value x"
  by (simp add: char_of_int_def char_value_def sint_sbintrunc')

lemma sint_max_char: "sint (max_char a b) = max (sint a) (sint b)"
  by (simp add: max_char_def max_def)

lemma char_value_id: "- 128 \<le> x \<Longrightarrow> x \<le> 127 \<Longrightarrow> char_value x = x"
  unfolding char_value_def by (rule signed_take_bit_int_eq_self) simp_all

section \<open>Smith-Waterman: both forms of the cell update\<close>

text \<open>
  Claim C4, row by row.  In both forms (the fold-based \<open>systolic_hop_synth\<close> and the
  loop-based \<open>systolic_loop_synth\<close>) the new cell of row \<open>row\<close> is the same.  At row 0
  it is \<open>v = e = f = 0\<close>, whatever the inputs and the boundary marker.  At a row with
  an index of at least 1: when the boundary marker of the row is not set the cell has
  \<open>e = max (v_left - ALPHA) (e_left - BETA)\<close>,
  \<open>f = max (v_above - ALPHA) (f_above - BETA)\<close> and
  \<open>v = max (v_diagonal + sigma) e f\<close>, with \<open>sigma = MATCH\<close> when the read symbol is
  the reference symbol and \<open>- MATCH\<close> otherwise, each stored into a \<^verbatim>\<open>char\<close>; there
  is no clamping at 0.  When the marker is set, \<open>v = e = f = - (row + 1)\<close>.  The
  left neighbour is \<open>smatrix ! row ! 0\<close>, the cell above is \<open>smatrix ! (row - 1) ! 0\<close>
  and the diagonal one is \<open>smatrix ! (row - 1) ! 1\<close>.
\<close>

theorem smith_waterman_cell_update:
  assumes "length left = READ_LENGTH" "length top' = READ_LENGTH"
    and "length smatrix = READ_LENGTH" "\<forall>r<READ_LENGTH. length (smatrix ! r) = SW_HIST"
    and "row < READ_LENGTH"
    and "hop = systolic_hop_synth left top' smatrix ! row ! 0"
    and "loop = systolic_loop_synth left top' smatrix ! row ! 0"
    and "sigma = (if left ! row = ref_b (top' ! row) then MATCH else - MATCH)"
  shows "hop = loop \<and>
    (row = 0 \<longrightarrow> loop = \<lparr>score_v = 0, score_e = 0, score_f = 0\<rparr>) \<and>
    (0 < row \<longrightarrow>
      (ref_last (top' ! row) \<longrightarrow>
         sint (score_v loop) = - (int row + 1) \<and> sint (score_e loop) = - (int row + 1) \<and>
         sint (score_f loop) = - (int row + 1)) \<and>
      (\<not> ref_last (top' ! row) \<longrightarrow>
         sint (score_e loop) = char_value (max (sint (score_v (smatrix ! row ! 0)) - ALPHA)
                                              (sint (score_e (smatrix ! row ! 0)) - BETA)) \<and>
         sint (score_f loop) = char_value (max (sint (score_v (smatrix ! (row - 1) ! 0)) - ALPHA)
                                              (sint (score_f (smatrix ! (row - 1) ! 0)) - BETA)) \<and>
         sint (score_v loop) = max (char_value (sint (score_v (smatrix ! (row - 1) ! 1)) + sigma))
                                   (max (sint (score_e loop)) (sint (score_f loop)))))"
proof -
  have hop: "hop = sw_op_rec (left ! row) (top' ! row) (rev (take (Suc row) smatrix))"
    using assms by (simp add: systolic_hop_synth_def systolic_eq [of _ READ_LENGTH] del: upt_Suc)
  have loop: "loop = sw_op_loop row (left ! row) (top' ! row) smatrix"
    using assms by (simp add: systolic_loop_synth_def SW_HIST_def sloop_systolic_eq del: upt_Suc)
  have zero: "hop = loop \<and> loop = \<lparr>score_v = 0, score_e = 0, score_f = 0\<rparr>" if "row = 0"
    unfolding hop loop using that assms(3)
    by (simp add: sw_op_rec_def sw_op_loop_def READ_LENGTH_def)
  have eq: "hop = loop" if "0 < row"
    unfolding hop loop using that assms by (intro sw_op_rec_window) simp_all
  define c where "c = char_of_int (- int (row + 1))"
  have "char_value (- int (row + 1)) = - int (row + 1)"
    using assms by (intro char_value_id) (simp_all add: READ_LENGTH_def)
  then have neg: "sint c = - (int row + 1)"
    by (simp add: c_def sint_char_of_int)
  have sig: "sint (char_of_int sigma) = sigma"
    using assms by (simp add: sint_char_of_int MATCH_def char_value_def)
  have last: "sint (score_v loop) = - (int row + 1) \<and> sint (score_e loop) = - (int row + 1) \<and>
       sint (score_f loop) = - (int row + 1)" if "0 < row" "ref_last (top' ! row)"
    unfolding loop sw_op_loop_def c_def [symmetric] using that neg by simp
  have cell: "sint (score_e loop) = char_value (max (sint (score_v (smatrix ! row ! 0)) - ALPHA)
                                            (sint (score_e (smatrix ! row ! 0)) - BETA)) \<and>
       sint (score_f loop) = char_value (max (sint (score_v (smatrix ! (row - 1) ! 0)) - ALPHA)
                                            (sint (score_f (smatrix ! (row - 1) ! 0)) - BETA)) \<and>
       sint (score_v loop) = max (char_value (sint (score_v (smatrix ! (row - 1) ! 1)) + sigma))
                                 (max (sint (score_e loop)) (sint (score_f loop)))"
    if "0 < row" "\<not> ref_last (top' ! row)"
    unfolding loop using that sig
    by (simp add: sw_op_loop_def Let_def sint_char_of_int sint_max_char assms(8) [symmetric])
  show ?thesis
    using zero eq last cell by (cases "row = 0") blast+
qed

theorem smith_waterman_cell_update_witness:
  "systolic_hop_synth (replicate 16 97) (replicate 16 \<lparr>ref_b = 99, ref_last = False\<rparr>)
       (replicate 16 (replicate 2 \<lparr>score_v = 0, score_e = 0, score_f = 0\<rparr>)) ! 1 ! 0
     = systolic_loop_synth (replicate 16 97) (replicate 16 \<lparr>ref_b = 99, ref_last = False\<rparr>)
       (replicate 16 (replicate 2 \<lparr>score_v = 0, score_e = 0, score_f = 0\<rparr>)) ! 1 ! 0 \<and>
   sint (score_e (systolic_loop_synth (replicate 16 97) (replicate 16 \<lparr>ref_b = 99, ref_last = False\<rparr>)
       (replicate 16 (replicate 2 \<lparr>score_v = 0, score_e = 0, score_f = 0\<rparr>)) ! 1 ! 0)) = - 1 \<and>
   sint (score_v (systolic_loop_synth (replicate 16 97) (replicate 16 \<lparr>ref_b = 99, ref_last = False\<rparr>)
       (replicate 16 (replicate 2 \<lparr>score_v = 0, score_e = 0, score_f = 0\<rparr>)) ! 1 ! 0)) = - 1 \<and>
   sint (score_v (systolic_loop_synth (replicate 16 97) (replicate 16 \<lparr>ref_b = 99, ref_last = True\<rparr>)
       (replicate 16 (replicate 2 \<lparr>score_v = 0, score_e = 0, score_f = 0\<rparr>)) ! 1 ! 0)) = - 2 \<and>
   systolic_hop_synth (replicate 16 97) (replicate 16 \<lparr>ref_b = 97, ref_last = True\<rparr>)
       (replicate 16 (replicate 2 \<lparr>score_v = 5, score_e = 6, score_f = 7\<rparr>)) ! 0 ! 0
     = \<lparr>score_v = 0, score_e = 0, score_f = 0\<rparr> \<and>
   systolic_loop_synth (replicate 16 97) (replicate 16 \<lparr>ref_b = 97, ref_last = True\<rparr>)
       (replicate 16 (replicate 2 \<lparr>score_v = 5, score_e = 6, score_f = 7\<rparr>)) ! 0 ! 0
     = \<lparr>score_v = 0, score_e = 0, score_f = 0\<rparr>"
  using
    smith_waterman_cell_update [of "replicate 16 97" "replicate 16 \<lparr>ref_b = 99, ref_last = False\<rparr>"
      "replicate 16 (replicate 2 \<lparr>score_v = 0, score_e = 0, score_f = 0\<rparr>)" 1, OF _ _ _ _ _ refl refl refl]
    smith_waterman_cell_update [of "replicate 16 97" "replicate 16 \<lparr>ref_b = 99, ref_last = True\<rparr>"
      "replicate 16 (replicate 2 \<lparr>score_v = 0, score_e = 0, score_f = 0\<rparr>)" 1, OF _ _ _ _ _ refl refl refl]
    smith_waterman_cell_update [of "replicate 16 97" "replicate 16 \<lparr>ref_b = 97, ref_last = True\<rparr>"
      "replicate 16 (replicate 2 \<lparr>score_v = 5, score_e = 6, score_f = 7\<rparr>)" 0, OF _ _ _ _ _ refl refl refl]
  by (simp add: READ_LENGTH_def SW_HIST_def ALPHA_def BETA_def MATCH_def char_value_def)

text \<open>
  At row 0 the boundary value \<open>- (0 + 1)\<close> of the claim is not produced: both operators
  return zeros there, also when the boundary marker is set.
\<close>

theorem smith_waterman_row0_counterexample:
  "sint (score_v (systolic_loop_synth (replicate 16 97) (replicate 16 \<lparr>ref_b = 99, ref_last = True\<rparr>)
       (replicate 16 (replicate 2 \<lparr>score_v = 0, score_e = 0, score_f = 0\<rparr>)) ! 0 ! 0)) \<noteq> - (int 0 + 1) \<and>
   sint (score_v (systolic_hop_synth (replicate 16 97) (replicate 16 \<lparr>ref_b = 99, ref_last = True\<rparr>)
       (replicate 16 (replicate 2 \<lparr>score_v = 0, score_e = 0, score_f = 0\<rparr>)) ! 0 ! 0)) \<noteq> - (int 0 + 1)"
  by (simp add: systolic_loop_synth_def systolic_hop_synth_def SW_HIST_def sloop_systolic_eq
      systolic_eq [of _ 16] sw_op_loop_def sw_op_rec_def del: upt_Suc)

section \<open>Streaming insertion sort\<close>

lemma length_pass [simp]: "length (fst (pass xs b)) = length xs"
  by (induction xs) simp_all

lemma pass_append:
  "pass (xs @ ys) b =
     (fst (pass xs (snd (pass ys b))) @ fst (pass ys b), snd (pass xs (snd (pass ys b))))"
  by (induction xs) simp_all

lemma for_downto_step:
  "for_downto (int (Suc k) - 1) 0 body s = for_downto (int k - 1) 0 body (body (int k) s)"
  by (subst for_downto.simps) simp

lemma for_downto_pass:
  "k \<le> length arr \<Longrightarrow>
   for_downto (int k - 1) 0
     (\<lambda>i (arr, bump).
        let me = arr ! nat i;
            comparison = (fst me < fst bump \<and> \<not> snd me);
            newme = (if comparison then fst me else fst bump, snd bump);
            bump = (if comparison then fst bump else fst me, snd me)
        in (arr[nat i := newme], bump))
     (arr, b)
   = (fst (pass (take k arr) b) @ drop k arr, snd (pass (take k arr) b))"
proof (induction k arbitrary: arr b)
  case 0
  then show ?case by (simp add: for_downto.simps)
next
  case (Suc k)
  let ?body = "\<lambda>i (arr, bump).
        let me = arr ! nat i;
            comparison = (fst me < fst bump \<and> \<not> snd me);
            newme = (if comparison then fst me else fst bump, snd bump);
            bump = (if comparison then fst bump else fst me, snd me)
        in (arr[nat i := newme], bump)"
  from Suc.prems have k: "k < length arr" by simp
  have body: "?body (int k) (arr, b) = (arr[k := fst (cell (arr ! k) b)], snd (cell (arr ! k) b))"
    by (simp add: cell_def Let_def)
  have take: "take (Suc k) arr = take k arr @ [arr ! k]"
    using k by (simp add: take_Suc_conv_app_nth)
  have drop: "drop k (arr[k := v]) = v # drop (Suc k) arr" for v
    using k by (metis Cons_nth_drop_Suc drop_update_cancel length_list_update lessI
        nth_list_update_eq)
  have "for_downto (int (Suc k) - 1) 0 ?body (arr, b)
        = for_downto (int k - 1) 0 ?body
            (arr[k := fst (cell (arr ! k) b)], snd (cell (arr ! k) b))"
    unfolding for_downto_step body ..
  also have "\<dots> = (fst (pass (take k arr) (snd (cell (arr ! k) b)))
                     @ fst (cell (arr ! k) b) # drop (Suc k) arr,
                   snd (pass (take k arr) (snd (cell (arr ! k) b))))"
    using k by (subst Suc.IH) (simp_all add: drop)
  finally show ?case
    by (simp add: take pass_append)
qed

lemma isort_loop_synth_pass:
  "length arr = LIST_LENGTH \<Longrightarrow> isort_loop_synth arr IN = (snd (pass arr IN), fst (pass arr IN))"
  unfolding isort_loop_synth_def
  by (subst for_downto_pass) (simp_all add: case_prod_beta)

lemma minOp_cell:
  "minOp me (b # past) = snd (cell me b) # fst (cell me b) # past"
  by (simp add: minOp_def cell_def Let_def head_eq tail_eq prepend_eq)

lemma foldr_minOp: "foldr minOp arr [b] = snd (pass arr b) # fst (pass arr b)"
  by (induction arr) (simp_all add: minOp_cell)

lemma isort_hop_synth_pass:
  "isort_hop_synth arr IN = (snd (pass arr IN), fst (pass arr IN))"
  by (simp add: isort_hop_synth_def rreduce_eq foldr_minOp head_eq tail_eq)



lemma pass_shifts: "shifts ys b \<Longrightarrow> snd (pass ys b) # fst (pass ys b) = ys @ [b]"
proof (induction ys)
  case Nil
  then show ?case by simp
next
  case (Cons y ys)
  then have IH: "snd (pass ys b) # fst (pass ys b) = ys @ [b]"
    by simp
  then have hd: "snd (pass ys b) = hd (ys @ [b])"
    by (metis list.sel(1))
  have "cell y (snd (pass ys b)) = (snd (pass ys b), y)"
    using Cons.prems by (auto simp add: cell_def hd)
  then show ?case
    using IH by simp
qed

text \<open>
  A region without boundary flags that is sorted in descending order stays so when a
  value passes through it, and hands on its maximum.
\<close>

lemma pass_sorted:
  assumes "\<forall>x\<in>set rs. \<not> snd x" and "sorted_wrt (\<ge>) (map fst rs)"
  shows "sorted_wrt (\<ge>) (fst (snd (pass rs b)) # map fst (fst (pass rs b))) \<and>
         mset (fst (snd (pass rs b)) # map fst (fst (pass rs b))) = mset (fst b # map fst rs) \<and>
         snd (snd (pass rs b)) # map snd (fst (pass rs b)) = map snd rs @ [snd b]"
  using assms
proof (induction rs)
  case Nil
  then show ?case by simp
next
  case (Cons x xs)
  let ?b' = "snd (pass xs b)" and ?xs' = "fst (pass xs b)"
  from Cons have IH: "sorted_wrt (\<ge>) (fst ?b' # map fst ?xs')"
      "mset (fst ?b' # map fst ?xs') = mset (fst b # map fst xs)"
      "snd ?b' # map snd ?xs' = map snd xs @ [snd b]"
    by simp_all
  from Cons.prems have x: "\<not> snd x" "\<forall>y\<in>set (map fst xs). y \<le> fst x"
    by auto
  show ?case
  proof (cases "fst x < fst ?b'")
    case True
    then have c: "cell x ?b' = ((fst x, snd ?b'), (fst ?b', snd x))"
      using x by (simp add: cell_def)
    have "fst ?b' \<notin> set (map fst xs)"
      using True x(2) by auto
    moreover have "fst ?b' \<in># mset (fst b # map fst xs)"
      using IH(2) by (metis list.set_intros(1) set_mset_mset)
    ultimately have b: "fst ?b' = fst b"
      by auto
    then have "mset (map fst ?xs') = mset (map fst xs)"
      using IH(2) by simp
    then have "set (map fst ?xs') = set (map fst xs)"
      by (metis set_mset_mset)
    then have "\<forall>y\<in>set (map fst ?xs'). y \<le> fst x"
      using x(2) by simp
    then show ?thesis
      using True IH c by (auto simp add: b)
  next
    case False
    then have c: "cell x ?b' = ((fst ?b', snd ?b'), (fst x, snd x))"
      by (simp add: cell_def)
    show ?thesis
      using False IH c by (auto simp add: insert_commute add_mset_commute)
  qed
qed


lemma shifts_last_flag:
  "sorted_wrt (\<ge>) (map fst P) \<Longrightarrow> P \<noteq> [] \<Longrightarrow> snd (last P) \<Longrightarrow> shifts P b"
proof (induction P)
  case Nil
  then show ?case by simp
next
  case (Cons y ys)
  show ?case
  proof (cases "ys = []")
    case True
    then show ?thesis using Cons.prems by simp
  next
    case False
    then have "fst (hd (ys @ [b])) = fst (hd ys)" "hd ys \<in> set ys"
      by simp_all
    then show ?thesis
      using Cons False by auto
  qed
qed

lemma sorted_replicate: "sorted_wrt (\<ge>) (replicate n (0 :: int))"
  by (induction n) simp_all

lemma sorted_zeros_mark: "sorted_wrt (\<ge>) (map fst (zeros_mark r))"
  by (cases r) (simp_all add: sorted_wrt_append sorted_replicate)

lemma shifts_zeros_mark: "shifts (zeros_mark r) b"
proof (cases r)
  case 0
  then show ?thesis by simp
next
  case (Suc r')
  then show ?thesis
    using sorted_zeros_mark [of r] by (intro shifts_last_flag) simp_all
qed

lemma tl_zeros_mark: "tl (zeros_mark (Suc r) @ [m]) = zeros_mark r @ [m]"
  by (cases r) simp_all

lemma hd_zeros_mark: "fst (hd (zeros_mark (Suc r) @ [m])) = 0"
  by (cases r) simp_all

lemma pass_zeros_mark:
  "fst (pass (zeros_mark (Suc r)) m) = zeros_mark r @ [m]"
  using pass_shifts [OF shifts_zeros_mark, of "Suc r" m] tl_zeros_mark [of r m]
  by (metis list.sel(3))

lemma shifts_initial: "shifts (replicate n (0, False)) (0, True)"
  by (induction n) (simp_all add: hd_append)

lemma pass_initial:
  "fst (pass (replicate (Suc n) (0, False)) (0, True)) = zeros_mark (Suc n)"
proof -
  have "snd (pass (replicate (Suc n) (0, False)) (0, True))
          # fst (pass (replicate (Suc n) (0, False)) (0, True))
        = (0, False) # replicate n (0, False) @ [(0, True)]"
    using pass_shifts [OF shifts_initial, of "Suc n"] by simp
  then show ?thesis
    by simp
qed

lemma region_step:
  assumes "region k input R" and "k < length input"
  shows "region (Suc k) input
           (snd (pass R (input ! k, False)) # fst (pass R (input ! k, False)))"
proof -
  let ?b = "(input ! k, False)"
  from assms have R: "\<forall>x\<in>set R. \<not> snd x" "sorted_wrt (\<ge>) (map fst R)"
    by (simp_all add: region_def)
  note P = pass_sorted [OF R, of ?b]
  have "map snd (snd (pass R ?b) # fst (pass R ?b)) = map snd R @ [False]"
    using P by simp
  then have "set (map snd (snd (pass R ?b) # fst (pass R ?b))) \<subseteq> {False}"
    using R(1) by auto
  then have flags: "\<forall>x\<in>set (snd (pass R ?b) # fst (pass R ?b)). \<not> snd x"
    by auto
  have "mset (take (Suc k) input) = mset (input ! k # take k input)"
    using assms(2) by (simp add: take_Suc_conv_app_nth)
  then show ?thesis
    using P flags assms by (simp add: region_def)
qed


lemma for_from_fold: "for_from i n body s = fold body [i..n - 1] s"
proof (induction i n body s rule: for_from.induct)
  case (1 i n body s)
  show ?case
  proof (cases "i < n")
    case True
    then have "[i..n - 1] = i # [i + 1..n - 1]"
      by (simp add: upto_rec1)
    then show ?thesis
      using True "1" by (subst for_from.simps) simp
  next
    case False
    then show ?thesis by (subst for_from.simps) simp
  qed
qed

lemma fold_upto_Suc:
  "fold f [a..a + int (Suc k) - 1] s = f (a + int k) (fold f [a..a + int k - 1] s)"
proof -
  have "[a..a + int (Suc k) - 1] = [a..a + int k - 1] @ [a + int k]"
    using upto_rec2 [of a "a + int k"] by simp
  then show ?thesis by simp
qed

lemma phaseB:
  assumes "length input = LIST_LENGTH" and "k \<le> LIST_LENGTH"
  shows "\<exists>R. region k input R \<and>
           fold (tstep input beyond) [0..int k - 1] (zeros_mark LIST_LENGTH, out)
           = (zeros_mark (LIST_LENGTH - k) @ R, out)"
  using assms(2)
proof (induction k)
  case 0
  then show ?case by (simp add: region_def)
next
  case (Suc k)
  then obtain R where R: "region k input R"
    and f: "fold (tstep input beyond) [0..int k - 1] (zeros_mark LIST_LENGTH, out)
            = (zeros_mark (LIST_LENGTH - k) @ R, out)"
    by auto
  let ?b = "(input ! k, False)"
  have k: "k < LIST_LENGTH" using Suc.prems by simp
  then have b: "feed_in input beyond (int k) = ?b"
    using assms(1) by (simp add: feed_in_def read_input_def)
  obtain r where r: "LIST_LENGTH - k = Suc r" "LIST_LENGTH - Suc k = r"
    using k by (metis Suc_diff_Suc)
  have "fold (tstep input beyond) [0..0 + int (Suc k) - 1] (zeros_mark LIST_LENGTH, out)
        = tstep input beyond (int k) (zeros_mark (Suc r) @ R, out)"
    unfolding fold_upto_Suc using f r by simp
  also have "\<dots> = (zeros_mark r @ snd (pass R ?b) # fst (pass R ?b), out)"
    using k by (simp add: tstep_def b pass_append pass_zeros_mark del: zeros_mark.simps)
  finally show ?case
    using region_step [OF R, of ] k assms(1) r by auto
qed

lemma region_full:
  assumes "region (length input) input R"
  shows "map fst R = rev (sort input)"
proof -
  from assms have "sorted (rev (map fst R))" "mset (rev (map fst R)) = mset input"
    by (simp_all add: region_def sorted_wrt_rev)
  then have "sort input = rev (map fst R)"
    by (intro properties_for_sort) simp_all
  then show ?thesis by simp
qed

lemma phaseC:
  assumes "region (length input) input R" and "input \<noteq> []"
  shows "map fst (fst (pass R (m, True))) = tl (rev (sort (m # input))) \<and>
         sorted_wrt (\<ge>) (map fst (fst (pass R (m, True)))) \<and>
         snd (last (fst (pass R (m, True)))) \<and>
         length (fst (pass R (m, True))) = length input"
proof -
  let ?S = "fst (pass R (m, True))" and ?o = "snd (pass R (m, True))"
  from assms have R: "\<forall>x\<in>set R. \<not> snd x" "sorted_wrt (\<ge>) (map fst R)"
      "length R = length input"
    by (simp_all add: region_def)
  note P = pass_sorted [OF R(1,2), of "(m, True)"]
  have vR: "map fst R = rev (sort input)"
    using assms(1) by (rule region_full)
  have "mset (rev (fst ?o # map fst ?S)) = mset (m # input)"
    using P vR by simp
  moreover have "sorted (rev (fst ?o # map fst ?S))"
    using P by (simp only: sorted_wrt_rev)
  ultimately have "sort (m # input) = rev (fst ?o # map fst ?S)"
    by (rule properties_for_sort)
  then have "rev (sort (m # input)) = fst ?o # map fst ?S"
    by simp
  then have v: "map fst ?S = tl (rev (sort (m # input)))"
    by simp
  have s: "sorted_wrt (\<ge>) (map fst ?S)"
    using P by simp
  have len: "length ?S = length input"
    using R(3) by simp
  then have ne: "?S \<noteq> []"
    using assms(2) by (metis length_0_conv)
  have "snd ?o # map snd ?S = map snd R @ [True]"
    using P by simp
  then have "last (snd ?o # map snd ?S) = True"
    by simp
  then have "last (map snd ?S)"
    using ne by simp
  then have "snd (last ?S)"
    using ne by (simp add: last_map)
  then show ?thesis
    using v s len by simp
qed

lemma phaseD:
  assumes "sorted_wrt (\<ge>) (map fst S)" and "length S = LIST_LENGTH" and "snd (last S)"
    and "n \<le> LIST_LENGTH"
  shows "\<exists>J. length J = n \<and>
           fold (tstep input beyond) [int LIST_LENGTH + 1..int LIST_LENGTH + 1 + int n - 1]
             (S, uninit LIST_LENGTH)
           = (drop n S @ J, map Some (take n (map fst S)) @ replicate (LIST_LENGTH - n) None)"
  using assms(4)
proof (induction n)
  case 0
  then show ?case by (simp add: uninit_def)
next
  case (Suc n)
  let ?N = "LIST_LENGTH"
  from Suc obtain J where J: "length J = n"
    and f: "fold (tstep input beyond) [int ?N + 1..int ?N + 1 + int n - 1] (S, uninit ?N)
            = (drop n S @ J, map Some (take n (map fst S)) @ replicate (?N - n) None)"
    by auto
  have n: "n < length S" using Suc.prems assms(2) by simp
  let ?i = "int ?N + 1 + int n"
  let ?b = "feed_in input beyond ?i"
  let ?b' = "snd (pass J ?b)"
  let ?P = "drop n S"
  have P: "?P \<noteq> []" "sorted_wrt (\<ge>) (map fst ?P)" "snd (last ?P)"
    using n assms(1,3) by (simp_all add: sorted_wrt_drop drop_map [symmetric])
  have sh: "snd (pass ?P ?b') # fst (pass ?P ?b') = ?P @ [?b']"
    using P by (intro pass_shifts shifts_last_flag)
  have "?P = S ! n # drop (Suc n) S"
    using n by (simp add: Cons_nth_drop_Suc)
  with sh have out: "snd (pass ?P ?b') = S ! n" and arr: "fst (pass ?P ?b') = drop (Suc n) S @ [?b']"
    by simp_all
  let ?out = "map Some (take n (map fst S)) @ replicate (?N - n) None"
  have upd: "?out[n := Some (fst (S ! n))]
             = map Some (take (Suc n) (map fst S)) @ replicate (?N - Suc n) None"
  proof -
    obtain r where r: "?N - n = Suc r" "?N - Suc n = r"
      using n assms(2) by (metis Suc_diff_Suc)
    show ?thesis
      using n by (simp add: r list_update_append take_Suc_conv_app_nth)
  qed
  have "fold (tstep input beyond) [int ?N + 1..int ?N + 1 + int (Suc n) - 1] (S, uninit ?N)
        = tstep input beyond ?i (?P @ J, ?out)"
    unfolding fold_upto_Suc f ..
  also have "\<dots> = (drop (Suc n) S @ ?b' # fst (pass J ?b), ?out[n := Some (fst (S ! n))])"
    using n assms(2) by (simp add: tstep_def pass_append out arr)
  finally show ?case
    using J upd by (intro exI [of _ "?b' # fst (pass J ?b)"]) simp
qed


lemma length_tstep [simp]: "length (fst (tstep input beyond i st)) = length (fst st)"
  by (simp add: tstep_def)

lemma fold_invariant_cong:
  assumes "\<And>i st. I st \<Longrightarrow> f i st = g i st" and "\<And>i st. I st \<Longrightarrow> I (g i st)"
  shows "I st \<Longrightarrow> fold f xs st = fold g xs st"
  by (induction xs arbitrary: st) (simp_all add: assms)

lemma fold_body_tstep:
  assumes "synth_ok synth" and "length arr = LIST_LENGTH"
  shows
   "fold (\<lambda>i (arr, output).
            let in' = (if i = - 1 then 0 else read_input input beyond i,
                       i = int LIST_LENGTH \<or> i = - 1);
                (out, arr) = synth arr in';
                output = (if int LIST_LENGTH + 1 \<le> i \<and> i \<le> int LIST_LENGTH * 2
                          then output[nat (i - (int LIST_LENGTH + 1)) := Some (fst out)]
                          else output)
            in (arr, output)) is (arr, outp)
    = fold (tstep input beyond) is (arr, outp)"
proof (rule fold_invariant_cong [where I = "\<lambda>st. length (fst st) = LIST_LENGTH"])
  fix i :: int and st :: "isort_t list \<times> int option list"
  assume len: "length (fst st) = LIST_LENGTH"
  have "synth (fst st) (feed_in input beyond i)
      = (snd (pass (fst st) (feed_in input beyond i)), fst (pass (fst st) (feed_in input beyond i)))"
    using assms(1) len unfolding synth_ok_def by blast
  then show "(case st of (arr, output) \<Rightarrow>
            let in' = (if i = - 1 then 0 else read_input input beyond i,
                       i = int LIST_LENGTH \<or> i = - 1);
                (out, arr) = synth arr in';
                output = (if int LIST_LENGTH + 1 \<le> i \<and> i \<le> int LIST_LENGTH * 2
                          then output[nat (i - (int LIST_LENGTH + 1)) := Some (fst out)]
                          else output)
            in (arr, output)) = tstep input beyond i st"
    unfolding tstep_def feed_in_def [symmetric] Let_def case_prod_beta
    by simp
  show "length (fst (tstep input beyond i st)) = LIST_LENGTH"
    using len by simp
qed (simp add: assms)

lemma isort_test_fold:
  assumes "synth_ok synth"
  shows "isort_test synth input beyond
         = contents (snd (fold (tstep input beyond) [- 1..int LIST_LENGTH * 2 + 1 - 1]
             (replicate LIST_LENGTH (0, False), uninit LIST_LENGTH)))"
proof -
  let ?N = "LIST_LENGTH"
  let ?t = "tstep input beyond"
  let ?out0 = "uninit ?N :: int option list"
  define body where "body = (\<lambda>(i :: int) (arr, output).
            let in' = (if i = - 1 then 0 else read_input input beyond i,
                       i = int LIST_LENGTH \<or> i = - 1);
                (out, arr) = synth arr in';
                output = (if int LIST_LENGTH + 1 \<le> i \<and> i \<le> int LIST_LENGTH * 2
                          then output[nat (i - (int LIST_LENGTH + 1)) := Some (fst out)]
                          else output)
            in (arr, output))"
  have "isort_test synth input beyond
        = contents (snd (for_from (- 1) (int ?N * 2 + 1) body (replicate ?N (0, False), ?out0)))"
    unfolding isort_test_def body_def by (simp add: Let_def case_prod_beta)
  also have "\<dots> = contents (snd (fold ?t [- 1..int ?N * 2 + 1 - 1] (replicate ?N (0, False), ?out0)))"
    unfolding for_from_fold body_def
    by (subst fold_body_tstep [OF assms]) simp_all
  finally show ?thesis .
qed

lemma isort_test_readback:
  assumes "length input = LIST_LENGTH" and "synth_ok synth"
  shows "isort_test synth input beyond = tl (rev (sort (beyond 0 # input)))"
proof -
  let ?N = "LIST_LENGTH"
  let ?t = "tstep input beyond"
  let ?out0 = "uninit ?N :: int option list"
  obtain n where N: "?N = Suc n"
    by (simp add: LIST_LENGTH_def)
  have ne: "input \<noteq> []"
    using assms(1) N by auto
  have split: "[- 1..int ?N * 2 + 1 - 1]
               = - 1 # [0..int ?N - 1] @ int ?N # [int ?N + 1..int ?N + 1 + int ?N - 1]"
  proof -
    have "[- 1..int ?N * 2] = - 1 # [0..int ?N * 2]"
      by (subst upto_rec1) simp_all
    moreover have "[0..int ?N * 2] = [0..int ?N - 1] @ [int ?N..int ?N * 2]"
      by (rule upto_split1) simp_all
    moreover have "[int ?N..int ?N * 2] = int ?N # [int ?N + 1..int ?N * 2]"
      by (subst upto_rec1) simp_all
    moreover have "int ?N + 1 + int ?N - 1 = int ?N * 2"
      by simp
    ultimately show ?thesis by (simp only: diff_add_cancel add_diff_cancel_right' append_Cons)
  qed
  have A: "?t (- 1) (replicate ?N (0, False), ?out0) = (zeros_mark ?N, ?out0)"
    unfolding N by (simp add: tstep_def feed_in_def pass_initial del: zeros_mark.simps replicate_Suc)
  obtain R where R: "region ?N input R"
    and B: "fold ?t [0..int ?N - 1] (zeros_mark ?N, ?out0) = (R, ?out0)"
    using phaseB [OF assms(1), of ?N beyond ?out0] by auto
  let ?S = "fst (pass R (beyond 0, True))"
  have "feed_in input beyond (int ?N) = (beyond 0, True)"
    using assms(1) by (simp add: feed_in_def read_input_def)
  then have C: "?t (int ?N) (R, ?out0) = (?S, ?out0)"
    by (simp add: tstep_def)
  have "region (length input) input R"
    using R assms(1) by simp
  note pc = phaseC [OF this ne, of "beyond 0"]
  have S: "map fst ?S = tl (rev (sort (beyond 0 # input)))" "sorted_wrt (\<ge>) (map fst ?S)"
      "snd (last ?S)" "length ?S = ?N"
    using pc assms(1) by (blast, blast, blast, simp)
  obtain J where
    D: "fold ?t [int ?N + 1..int ?N + 1 + int ?N - 1] (?S, ?out0)
        = (drop ?N ?S @ J, map Some (take ?N (map fst ?S)) @ replicate (?N - ?N) None)"
    using phaseD [of ?S ?N input beyond] S by auto
  have "isort_test synth input beyond
        = contents (snd (fold ?t [- 1..int ?N * 2 + 1 - 1] (replicate ?N (0, False), ?out0)))"
    using assms(2) by (rule isort_test_fold)
  also have "\<dots> = contents (map Some (take ?N (map fst ?S)))"
    unfolding split
    by (simp only: fold_Cons fold_append comp_apply A B C D snd_conv diff_self_eq_0
        replicate_0 append_Nil2)
  also have "\<dots> = take ?N (map fst ?S)"
    by (rule contents_Some)
  also have "\<dots> = map fst ?S"
    using S(4) by simp
  finally show ?thesis
    using S(1) by simp
qed

lemma readback_sorted_iff:
  "tl (rev (sort (m # input))) = rev (sort input) \<longleftrightarrow> (\<forall>x\<in>set input. x \<le> (m :: int))"
proof
  assume le: "\<forall>x\<in>set input. x \<le> m"
  have "sort (m # input) = sort input @ [m]"
    using le by (intro properties_for_sort) (auto simp add: sorted_append)
  then show "tl (rev (sort (m # input))) = rev (sort input)"
    by simp
next
  assume eq: "tl (rev (sort (m # input))) = rev (sort input)"
  let ?L = "rev (sort (m # input))"
  have ne: "?L \<noteq> []"
    by (metis length_rev length_sort list.distinct(1) length_0_conv)
  then have L: "?L = hd ?L # rev (sort input)"
    using eq by (metis list.collapse)
  have "mset ?L = add_mset m (mset input)"
    by simp
  moreover have "mset ?L = add_mset (hd ?L) (mset input)"
    by (subst L) simp
  ultimately have hd: "hd ?L = m"
    by simp
  have "sorted_wrt (\<ge>) ?L"
    by (simp add: sorted_wrt_rev sorted_insort)
  then have "sorted_wrt (\<ge>) (m # rev (sort input))"
    using L hd by simp
  then show "\<forall>x\<in>set input. x \<le> m"
    by simp
qed

lemma synth_ok_hop: "synth_ok isort_hop_synth"
  by (simp add: synth_ok_def isort_hop_synth_pass)

lemma synth_ok_loop: "synth_ok isort_loop_synth"
  by (simp add: synth_ok_def isort_loop_synth_pass)

text \<open>
  Claim C3.  The test reads the value that it feeds with the closing boundary tag from
  \<^verbatim>\<open>input[16]\<close>, one place behind the 16-element array (\<open>beyond 0\<close>), and the 16
  values fed during the read-back from further behind.  For every array of
  \<open>LIST_LENGTH = 16\<close> integers and whatever lies behind it, the 16 values that either
  form (the right-fold form or the unrolled-loop form) hands back from cycle 17 on,
  after \<open>2 * 16 + 2\<close> calls, are the descending sort of the 16 values together with
  \<open>beyond 0\<close>, without its first (largest) element.  That is the input sorted in
  descending order exactly when \<open>beyond 0\<close> is at least every value of the array.
  When the array holds a value above \<open>beyond 0\<close>, the maximum has left the buffer a
  cycle early, and \<^verbatim>\<open>check(output, gold)\<close> of the test returns a non-zero value.
\<close>

theorem insertion_sort_reads_past_input:
  assumes "length input = LIST_LENGTH"
    and "synth = isort_hop_synth \<or> synth = isort_loop_synth"
    and "out = isort_test synth input beyond"
  shows "out = tl (rev (sort (beyond 0 # input))) \<and>
         (out = gold_sort input \<longleftrightarrow> (\<forall>x\<in>set input. x \<le> beyond 0)) \<and>
         ((\<exists>x\<in>set input. beyond 0 < x) \<longrightarrow>
            (\<exists>k<LIST_LENGTH. check out (gold_sort input) = (Some (- (int k + 1)), out, gold_sort input)))"
proof -
  have ok: "synth_ok synth"
    using assms(2) synth_ok_hop synth_ok_loop by auto
  have out: "out = tl (rev (sort (beyond 0 # input)))"
    unfolding assms(3) using assms(1) ok by (rule isort_test_readback)
  have iff: "out = gold_sort input \<longleftrightarrow> (\<forall>x\<in>set input. x \<le> beyond 0)"
    unfolding out gold_sort_def by (rule readback_sorted_iff)
  have "\<exists>k<LIST_LENGTH. check out (gold_sort input) = (Some (- (int k + 1)), out, gold_sort input)"
    if "\<exists>x\<in>set input. beyond 0 < x"
  proof -
    have ne: "out \<noteq> gold_sort input"
      using that iff by auto
    have len: "length out = LIST_LENGTH" "length (gold_sort input) = LIST_LENGTH"
      using assms(1) by (simp_all add: out gold_sort_def)
    have "\<exists>k<length out. check out (gold_sort input) = (Some (- (int k + 1)), out, gold_sort input)"
      using len ne by (intro check_differ) (simp_all add: LIST_LENGTH_def)
    then show ?thesis
      using len by simp
  qed
  then show ?thesis
    using out iff by blast
qed

theorem insertion_sort_reads_past_input_witness:
  "isort_test isort_hop_synth [3, - 5, 0, 7, 2, 2, - 1, 9, 4, - 8, 6, 1, 0, 5, - 3, 8] (\<lambda>_. 0)
     = [8, 7, 6, 5, 4, 3, 2, 2, 1, 0, 0, 0, - 1, - 3, - 5, - 8] \<and>
   isort_test isort_loop_synth [3, - 5, 0, 7, 2, 2, - 1, 9, 4, - 8, 6, 1, 0, 5, - 3, 8] (\<lambda>_. 0)
     = [8, 7, 6, 5, 4, 3, 2, 2, 1, 0, 0, 0, - 1, - 3, - 5, - 8] \<and>
   isort_test isort_hop_synth [3, - 5, 0, 7, 2, 2, - 1, 9, 4, - 8, 6, 1, 0, 5, - 3, 8] (\<lambda>_. 0)
     \<noteq> gold_sort [3, - 5, 0, 7, 2, 2, - 1, 9, 4, - 8, 6, 1, 0, 5, - 3, 8] \<and>
   isort_test isort_loop_synth [3, - 5, 0, 7, 2, 2, - 1, 9, 4, - 8, 6, 1, 0, 5, - 3, 8] (\<lambda>_. 0)
     \<noteq> gold_sort [3, - 5, 0, 7, 2, 2, - 1, 9, 4, - 8, 6, 1, 0, 5, - 3, 8] \<and>
   isort_test isort_loop_synth [3, - 5, 0, 7, 2, 2, - 1, 9, 4, - 8, 6, 1, 0, 5, - 3, 8] (\<lambda>_. 9)
     = gold_sort [3, - 5, 0, 7, 2, 2, - 1, 9, 4, - 8, 6, 1, 0, 5, - 3, 8]"
  using
    insertion_sort_reads_past_input [of "[3, - 5, 0, 7, 2, 2, - 1, 9, 4, - 8, 6, 1, 0, 5, - 3, 8]"
      isort_hop_synth _ "\<lambda>_. 0", OF _ _ refl]
    insertion_sort_reads_past_input [of "[3, - 5, 0, 7, 2, 2, - 1, 9, 4, - 8, 6, 1, 0, 5, - 3, 8]"
      isort_loop_synth _ "\<lambda>_. 0", OF _ _ refl]
    insertion_sort_reads_past_input [of "[3, - 5, 0, 7, 2, 2, - 1, 9, 4, - 8, 6, 1, 0, 5, - 3, 8]"
      isort_loop_synth _ "\<lambda>_. 9", OF _ _ refl]
  by (simp add: LIST_LENGTH_def gold_sort_def)

section \<open>Arg-min reduction tree\<close>

lemma block_min_unique:
  "block_min xs lo n m k \<Longrightarrow> block_min xs lo n m' k' \<Longrightarrow> m = m' \<and> k = k'"
  unfolding block_min_def
  by (metis leD le_less_linear order.strict_iff_order nat_neq_iff)

lemma block_min_combine:
  assumes "block_min xs lo n m1 k1" and "block_min xs (lo + n) n m2 k2"
  shows "block_min xs lo (2 * n) (if m2 < m1 then m2 else m1) (if m2 < m1 then k2 else k1)"
proof (cases "m2 < m1")
  case True
  have "m2 < xs ! j" if "lo \<le> j" "j < k2" for j
  proof (cases "j < lo + n")
    case True
    then have "m1 \<le> xs ! j"
      using assms(1) that by (simp add: block_min_def)
    then show ?thesis using \<open>m2 < m1\<close> by simp
  next
    case False
    then show ?thesis
      using assms(2) that by (simp add: block_min_def)
  qed
  moreover have "m2 \<le> xs ! j" if "lo \<le> j" "j < lo + 2 * n" for j
  proof (cases "j < lo + n")
    case True
    then have "m1 \<le> xs ! j"
      using assms(1) that by (simp add: block_min_def)
    then show ?thesis using \<open>m2 < m1\<close> by simp
  next
    case False
    then show ?thesis
      using assms(2) that by (simp add: block_min_def)
  qed
  ultimately show ?thesis
    using True assms(2) by (simp add: block_min_def)
next
  case False
  have "m1 \<le> xs ! j" if "lo \<le> j" "j < lo + 2 * n" for j
  proof (cases "j < lo + n")
    case True
    then show ?thesis
      using assms(1) that by (simp add: block_min_def)
  next
    case False
    then have "m2 \<le> xs ! j"
      using assms(2) that by (simp add: block_min_def)
    then show ?thesis using \<open>\<not> m2 < m1\<close> by simp
  qed
  then show ?thesis
    using False assms(1) by (simp add: block_min_def)
qed

lemma or_exp_absorb:
  fixes k :: nat
  assumes "bit k l"
  shows "2 ^ l OR k = k"
  by (rule bit_eqI) (use assms in \<open>auto simp add: bit_simps\<close>)

lemma or_exp_add:
  fixes k :: nat
  assumes "k < 2 ^ l"
  shows "2 ^ l OR k = 2 ^ l + k"
proof -
  have "take_bit l k = k"
    using assms by (simp add: take_bit_nat_eq_self_iff)
  then have "\<not> bit k l"
    by (metis bit_take_bit_iff less_irrefl)
  then have "2 ^ l + k = 2 ^ l OR k"
    by (intro disjunctive_add) (auto simp add: bit_simps)
  then show ?thesis by simp
qed

lemma bit_odd_block:
  fixes k :: nat
  assumes "(2 * i + 1) * 2 ^ l \<le> k" and "k < (2 * i + 2) * 2 ^ l"
  shows "bit k l"
proof -
  have "k div 2 ^ l = 2 * i + 1"
    using assms by (intro div_nat_eqI) (simp_all add: algebra_simps)
  then show ?thesis
    by (simp add: bit_iff_odd)
qed

lemma argminop_fields:
  "am_data (argminop L R) = (if am_data R < am_data L then am_data R else am_data L)"
  "am_lev (argminop L R) = am_lev L + 1"
  "am_idx (argminop L R) =
     (if am_data R < am_data L then 2 ^ am_lev L OR am_idx R else am_idx L)"
  by (simp_all add: argminop_def Let_def)

lemma argminop_block:
  assumes "am_lev L = l" and "block_min xs lo (2 ^ l) (am_data L) (am_idx L)"
    and "block_min xs (lo + 2 ^ l) (2 ^ l) (am_data R) kR" and "2 ^ l OR am_idx R = kR"
  shows "am_lev (argminop L R) = Suc l \<and>
         block_min xs lo (2 ^ Suc l) (am_data (argminop L R)) (am_idx (argminop L R))"
proof (cases "am_data R < am_data L")
  case True
  then have "am_data (argminop L R) = am_data R" "am_idx (argminop L R) = kR"
    using assms(1,4) by (simp_all add: argminop_fields)
  then show ?thesis
    using block_min_combine [OF assms(2,3)] True assms(1) by (simp add: argminop_fields)
next
  case False
  then have "am_data (argminop L R) = am_data L" "am_idx (argminop L R) = am_idx L"
    by (simp_all add: argminop_fields)
  then show ?thesis
    using block_min_combine [OF assms(2,3)] False assms(1) by (simp add: argminop_fields)
qed

lemma argmin_tree_block:
  "(i + 1) * 2 ^ l \<le> length IN \<Longrightarrow>
   am_lev (argmin_tree l i IN) = l \<and>
   block_min IN (i * 2 ^ l) (2 ^ l) (am_data (argmin_tree l i IN)) (am_idx (argmin_tree l i IN))"
proof (induction l arbitrary: i)
  case 0
  have "IN ! i \<le> IN ! j" if "i \<le> j" "j < Suc i" for j
  proof -
    from that have "j = i" by simp
    then show ?thesis by simp
  qed
  then show ?case by (simp add: block_min_def)
next
  case (Suc l)
  let ?L = "argmin_tree l (2 * i) IN" and ?R = "argmin_tree l (2 * i + 1) IN"
  have L: "am_lev ?L = l" "block_min IN (2 * i * 2 ^ l) (2 ^ l) (am_data ?L) (am_idx ?L)"
    using Suc.IH [of "2 * i"] Suc.prems by (simp_all add: algebra_simps)
  have R: "block_min IN (2 * i * 2 ^ l + 2 ^ l) (2 ^ l) (am_data ?R) (am_idx ?R)"
    using Suc.IH [of "2 * i + 1"] Suc.prems by (simp add: algebra_simps)
  have "bit (am_idx ?R) l"
    using R by (intro bit_odd_block [of i]) (simp_all add: block_min_def algebra_simps)
  then have idx: "2 ^ l OR am_idx ?R = am_idx ?R"
    by (rule or_exp_absorb)
  have "i * 2 ^ Suc l = 2 * i * 2 ^ l"
    by simp
  then show ?case
    using argminop_block [OF L(1) L(2) R idx] by (simp only: argmin_tree.simps)
qed


lemma block_min_left:
  "block_min ys 0 n m k \<Longrightarrow> n \<le> length ys \<Longrightarrow> block_min (ys @ zs) 0 n m k"
  by (simp add: block_min_def nth_append)

lemma block_min_right:
  "block_min zs 0 n m k \<Longrightarrow> block_min (ys @ zs) (length ys) n m (length ys + k)"
  unfolding block_min_def
  by (auto simp add: nth_append)

lemma describes_init: "describes [x] 0 (argmin_init x)"
  by (simp add: describes_def argmin_init_def block_min_def)

lemma describes_argminop:
  assumes "describes ys l L" and "describes zs l R" and "length ys = 2 ^ l"
  shows "describes (ys @ zs) (Suc l) (argminop L R)"
proof -
  from assms have L: "block_min (ys @ zs) 0 (2 ^ l) (am_data L) (am_idx L)"
    by (simp add: describes_def block_min_left)
  from assms have R: "block_min (ys @ zs) (0 + 2 ^ l) (2 ^ l) (am_data R) (2 ^ l + am_idx R)"
    using block_min_right [of zs "2 ^ l" "am_data R" "am_idx R" ys] by (simp add: describes_def)
  have "am_idx R < 2 ^ l"
    using assms(2) by (simp add: describes_def block_min_def)
  then have idx: "2 ^ am_lev L OR am_idx R = 2 ^ l + am_idx R"
    using assms(1) by (simp add: describes_def or_exp_add)
  have lev: "am_lev L = l"
    using assms(1) by (simp add: describes_def)
  show ?thesis
    unfolding describes_def
    using argminop_block [OF lev L R] idx lev by simp
qed

lemma DivconqHelper_argmin:
  "length xs = 2 ^ Suc l \<Longrightarrow>
   \<exists>e. DivconqHelper (Suc l) argminop_arr argminop (map argmin_init xs) = Some e \<and>
       describes xs (Suc l) e"
proof (induction l arbitrary: xs)
  case 0
  then obtain a b where xs: "xs = [a, b]"
    by (cases xs; cases "tl xs"; cases "tl (tl xs)") auto
  have "describes ([a] @ [b]) (Suc 0) (argminop (argmin_init a) (argmin_init b))"
    by (intro describes_argminop describes_init) simp
  then show ?case
    by (simp add: xs split_eq argminop_arr_def)
next
  case (Suc l)
  let ?ys = "take (2 ^ Suc l) xs" and ?zs = "drop (2 ^ Suc l) xs"
  have len: "length ?ys = 2 ^ Suc l" "length ?zs = 2 ^ Suc l"
    using Suc.prems by simp_all
  obtain L where L: "DivconqHelper (Suc l) argminop_arr argminop (map argmin_init ?ys) = Some L"
      "describes ?ys (Suc l) L"
    using Suc.IH [OF len(1)] by auto
  obtain R where R: "DivconqHelper (Suc l) argminop_arr argminop (map argmin_init ?zs) = Some R"
      "describes ?zs (Suc l) R"
    using Suc.IH [OF len(2)] by auto
  have "describes (?ys @ ?zs) (Suc (Suc l)) (argminop L R)"
    using L(2) R(2) len(1) by (rule describes_argminop)
  then have "describes xs (Suc (Suc l)) (argminop L R)"
    by simp
  moreover
  have sp: "split (2 ^ Suc l) (map argmin_init xs) = (map argmin_init ?ys, map argmin_init ?zs)"
    by (simp add: split_eq take_map drop_map)
  have "DivconqHelper (Suc (Suc l)) argminop_arr argminop (map argmin_init xs)
        = Some (argminop L R)"
    by (simp only: DivconqHelper.simps(3) sp Let_def fst_conv snd_conv L(1) R(1)
        prod.case option.case)
  ultimately show ?case
    by blast
qed

lemma log2_16: "log2 16 = 4"
  by (simp add: log2.simps)

lemma clog2_16: "clog2 16 = 4"
  by (simp add: clog2_def log2_16)

lemma argmin_hop_synth_block:
  assumes "length IN = LIST_LENGTH"
  shows "\<exists>m k. argmin_hop_synth IN = Some (m, k) \<and> block_min IN 0 LIST_LENGTH m k"
proof -
  have "length IN = 2 ^ Suc 3"
    using assms by (simp add: LIST_LENGTH_def)
  then obtain e where "DivconqHelper (Suc 3) argminop_arr argminop (map argmin_init IN) = Some e"
    and "describes IN (Suc 3) e"
    using DivconqHelper_argmin by blast
  moreover have "clog2 (length (map argmin_init IN)) = Suc 3"
    using assms by (simp add: LIST_LENGTH_def clog2_16)
  ultimately have "argmin_hop_synth IN = Some (am_data e, am_idx e)"
    by (simp only: argmin_hop_synth_def divconq_def map_hops_eq option.case)
  moreover have "block_min IN 0 LIST_LENGTH (am_data e) (am_idx e)"
    using \<open>describes IN (Suc 3) e\<close> by (simp add: describes_def LIST_LENGTH_def)
  ultimately show ?thesis
    by blast
qed





lemma table_rows: "replicate 5 (uninit 16 :: 'b option list)
  = [replicate 16 None, replicate 16 None, replicate 16 None, replicate 16 None, replicate 16 None]"
  by (simp add: uninit_def eval_nat_numeral)

lemma row_cells: "replicate 16 (None :: 'b option)
  = [None, None, None, None, None, None, None, None, None, None, None, None, None, None, None, None]"
  by (simp add: eval_nat_numeral)

lemma index_lists:
  "[0..<16] = [0, 1, 2, 3, 4, 5, 6, 7, 8, 9, 10, 11, 12, 13, 14, 15]"
  "[0..<8] = [0, 1, 2, 3, 4, 5, 6, 7]"
  "[0..<4] = [0, 1, 2, 3]"
  "[0..<2] = [0, 1]"
  "[0..<1] = [0]"
  "[Suc 0..<5] = [1, 2, 3, 4]"
  by code_simp+

lemma list_update_numeral:
  "(x # xs)[numeral k := y] = x # xs[pred_numeral k := y]"
  by (simp add: numeral_eq_Suc)

lemma argmin_loop_synth_tree:
  "argmin_loop_synth IN = (am_data (argmin_tree 4 0 IN), am_idx (argmin_tree 4 0 IN))"
proof -
  have tree: "argmin_tree 4 0 IN = argmin_tree (Suc (Suc (Suc (Suc 0)))) 0 IN"
    by (simp add: eval_nat_numeral)
  show ?thesis
    unfolding argmin_loop_synth_def LIST_LENGTH_def clog2_16 Let_def tree
    by (simp add: for_upto_fold table_rows row_cells index_lists list_update_numeral)
qed


lemma block_min_extend:
  assumes "block_min xs 0 n m k"
  shows "block_min xs 0 (Suc n) (if xs ! n < m then xs ! n else m) (if xs ! n < m then n else k)"
proof -
  have "j < n \<or> j = n" if "j < Suc n" for j
    using that by auto
  then show ?thesis
    using assms unfolding block_min_def by (auto simp add: less_Suc_eq)
qed

lemma gold_scan:
  "n \<le> length IN \<Longrightarrow>
   block_min IN 0 (Suc n)
     (fst (fold (\<lambda>i gold. if IN ! i < fst gold then (IN ! i, i) else gold) [0..<Suc n] (IN ! 0, 0)))
     (snd (fold (\<lambda>i gold. if IN ! i < fst gold then (IN ! i, i) else gold) [0..<Suc n] (IN ! 0, 0)))"
proof (induction n)
  case 0
  then show ?case by (simp add: block_min_def)
next
  case (Suc n)
  let ?g = "fold (\<lambda>i gold. if IN ! i < fst gold then (IN ! i, i) else gold) [0..<Suc n] (IN ! 0, 0)"
  have "block_min IN 0 (Suc n) (fst ?g) (snd ?g)"
    using Suc by simp
  then have "block_min IN 0 (Suc (Suc n)) (if IN ! Suc n < fst ?g then IN ! Suc n else fst ?g)
               (if IN ! Suc n < fst ?g then Suc n else snd ?g)"
    by (rule block_min_extend)
  moreover
  have "fold (\<lambda>i gold. if IN ! i < fst gold then (IN ! i, i) else gold) [0..<Suc (Suc n)] (IN ! 0, 0)
        = (if IN ! Suc n < fst ?g then (IN ! Suc n, Suc n) else ?g)"
    by simp
  ultimately show ?case
    by (simp only: fst_conv snd_conv if_distrib [of fst] if_distrib [of snd] cong: if_cong)
qed

lemma argmin_gold_block:
  assumes "length IN = LIST_LENGTH"
  shows "block_min IN 0 LIST_LENGTH (fst (argmin_gold (IN ! 0, 0) IN)) (snd (argmin_gold (IN ! 0, 0) IN))"
proof -
  have "LIST_LENGTH = Suc 15"
    by (simp add: LIST_LENGTH_def)
  then show ?thesis
    unfolding argmin_gold_def for_upto_fold using gold_scan [of 15 IN] assms by simp
qed

lemma argmin_loop_synth_block:
  assumes "length IN = LIST_LENGTH"
  shows "block_min IN 0 LIST_LENGTH (fst (argmin_loop_synth IN)) (snd (argmin_loop_synth IN))"
  using argmin_tree_block [of 0 4 IN] assms
  by (simp add: argmin_loop_synth_tree LIST_LENGTH_def)

text \<open>
  Claim C2.  For every array of \<open>LIST_LENGTH = 16\<close> integers (the array of the test
  is one of them), the staged table \<open>argmin_loop_synth\<close> and the divide-and-conquer
  form \<open>argmin_hop_synth\<close> return the same pair, and it is the pair of a linear scan
  for the minimum and its first index: the scan of the test started from the first
  element, and explicitly, an index below 16 that holds the value, the value is at
  most every element, and every element before the index is greater.
\<close>

theorem argmin_realizations:
  assumes "length IN = LIST_LENGTH"
  shows "argmin_hop_synth IN = Some (argmin_loop_synth IN) \<and>
         argmin_loop_synth IN = argmin_gold (IN ! 0, 0) IN \<and>
         snd (argmin_loop_synth IN) < LIST_LENGTH \<and>
         IN ! snd (argmin_loop_synth IN) = fst (argmin_loop_synth IN) \<and>
         (\<forall>j<LIST_LENGTH. fst (argmin_loop_synth IN) \<le> IN ! j) \<and>
         (\<forall>j < snd (argmin_loop_synth IN). fst (argmin_loop_synth IN) < IN ! j)"
proof -
  note loop = argmin_loop_synth_block [OF assms]
  obtain m k where hop: "argmin_hop_synth IN = Some (m, k)" "block_min IN 0 LIST_LENGTH m k"
    using argmin_hop_synth_block [OF assms] by blast
  have "(m, k) = argmin_loop_synth IN"
    using block_min_unique [OF hop(2) loop] by (simp add: prod_eq_iff)
  moreover have "argmin_loop_synth IN = argmin_gold (IN ! 0, 0) IN"
    using block_min_unique [OF loop argmin_gold_block [OF assms]] by (simp add: prod_eq_iff)
  ultimately show ?thesis
    using hop(1) loop by (simp add: block_min_def)
qed

theorem argmin_realizations_witness:
  "argmin_hop_synth [3, - 5, 0, 7, 2, 2, - 1, 9, 4, - 8, 6, 1, 0, 5, - 8, 8] = Some (- 8, 9) \<and>
   argmin_loop_synth [3, - 5, 0, 7, 2, 2, - 1, 9, 4, - 8, 6, 1, 0, 5, - 8, 8] = (- 8, 9) \<and>
   argmin_gold (3, 0) [3, - 5, 0, 7, 2, 2, - 1, 9, 4, - 8, 6, 1, 0, 5, - 8, 8] = (- 8, 9)"
proof -
  have "argmin_gold (3, 0) [3, - 5, 0, 7, 2, 2, - 1, 9, 4, - 8, 6, 1, 0, 5, - 8, 8] = (- 8, 9)"
    by (simp add: argmin_gold_def for_upto_fold LIST_LENGTH_def index_lists)
  then show ?thesis
    using argmin_realizations [of "[3, - 5, 0, 7, 2, 2, - 1, 9, 4, - 8, 6, 1, 0, 5, - 8, 8]"]
    by (simp add: LIST_LENGTH_def)
qed

end
